theory Spec2Isabelle
  imports Main "HOL-Library.Multiset" "HOL-Library.List_Lexorder" "HOL-Library.Product_Lexorder"
begin

section \<open>Data model\<close>

text \<open>
  The theory embeds the class \<open>Collection\<close>: an ordered, uniquely keyed container of
  cells with an id index, a cached length and a trace of the events it triggers.

  Objects are compared by reference in the source (\<open>cell.store !== existing.store\<close>,
  \<open>cells.indexOf(cell)\<close>). A cell value therefore carries an object tag \<open>oid\<close>; two
  cell values are the same object exactly when they are equal, so distinct objects may
  share an id and even a store. A property store is addressed by a number; the stores
  themselves live in a heap, because \<open>add\<close> with \<open>merge\<close> writes into the store of a member.
  The id of a cell never changes.
\<close>

record prop_store =
  data :: "string \<rightharpoonup> int"
  changed :: "string \<Rightarrow> bool"

record cell =
  oid :: nat
  cid :: string
  store_ref :: nat
  is_edge :: bool

text \<open>
  Option objects (\<open>SetOptions\<close>, \<open>AddOptions\<close>, \<open>RemoveOptions\<close>). A field is \<open>None\<close> when
  the object has no such entry; \<open>opt_rest\<close> holds every other entry, which the collection
  only passes on.
\<close>

record options =
  opt_silent :: "bool option"
  opt_merge :: "bool option"
  opt_sort :: "bool option"
  opt_rest :: "(string \<times> int) list"

definition truthy :: "bool option \<Rightarrow> bool" where
  "truthy b = (b = Some True)"

definition empty_options :: options where
  "empty_options = \<lparr>opt_silent = None, opt_merge = None, opt_sort = None, opt_rest = []\<rparr>"

text \<open>The default of a parameter \<open>options = {}\<close>.\<close>

definition or_empty :: "options option \<Rightarrow> options" where
  "or_empty options = (case options of None \<Rightarrow> empty_options | Some o1 \<Rightarrow> o1)"

text \<open>\<open>Collection.Comparator = string | string[] | ((a, b) => number)\<close>; a comparator
  function reads the cells' properties, hence the heap argument.\<close>

datatype comparator =
  ByFunction "(nat \<Rightarrow> prop_store) \<Rightarrow> cell \<Rightarrow> cell \<Rightarrow> int"
  | ByKey string
  | ByKeys "string list"

text \<open>The payloads of \<open>Collection.EventArgs\<close>: \<open>EvAdd cell index options\<close>,
  \<open>EvRemove cell index options\<close>, \<open>EvSort\<close>, \<open>EvReset previous current options\<close>,
  \<open>EvUpdate added merged removed options\<close>.\<close>

datatype event =
  EvAdd cell int options
  | EvRemove cell int options
  | EvSort
  | EvReset "cell list" "cell list" options
  | EvUpdate "cell list" "cell list" "cell list" options

text \<open>A call \<open>store.set(data, options)\<close> on the store at an address; the options argument
  is \<open>None\<close> when the call passes \<open>undefined\<close>.\<close>

datatype store_call = StoreSet nat "options option"

text \<open>
  The collection object (\<open>length\<close>, \<open>cells\<close>, \<open>map\<close>, \<open>comparator\<close>) together with the part
  of the environment its methods act on: the heap of property stores, the trace of
  \<open>trigger\<close> calls (oldest first), the trace of \<open>store.set\<close> calls, and the handlers that
  \<open>reference\<close> installs on cells (cell and event name). Handlers run by \<open>trigger\<close> are
  outside the model: an event is recorded, not dispatched.
\<close>

record collection =
  len :: int
  cells :: "cell list"
  cmap :: "string \<rightharpoonup> cell"
  comparator :: "comparator option"
  heap :: "nat \<Rightarrow> prop_store"
  events :: "event list"
  store_calls :: "store_call list"
  listeners :: "(cell \<times> string) list"

datatype 'a one_or_many = One 'a | Many "'a list"

text \<open>The one exception the methods can raise themselves: a property read or a call on
  \<open>undefined\<close>. An operation yields the collection as it is when the operation ends,
  together with its return value or the error it threw: what a method changed before it threw
  stays changed.\<close>

datatype error = TypeError

text \<open>
  What \<open>this.map[id]\<close> can yield. The index is a plain object (\<open>this.map = {}\<close>), so a key
  the collection never stored still resolves when it names a member every object inherits:
  \<open>Member c\<close> is a stored cell, \<open>Inherited n\<close> the inherited member of name \<open>n\<close> (a function, or
  the prototype object for \<open>__proto__\<close>). An inherited member is truthy and has no \<open>id\<close>, no
  \<open>store\<close> and no \<open>off\<close>.
\<close>

datatype entry = Member cell | Inherited string

text \<open>The members of \<open>Object.prototype\<close>.\<close>

definition object_members :: "string list" where
  "object_members =
     [''constructor'', ''hasOwnProperty'', ''isPrototypeOf'', ''propertyIsEnumerable'',
      ''toLocaleString'', ''toString'', ''valueOf'', ''__proto__'', ''__defineGetter__'',
      ''__defineSetter__'', ''__lookupGetter__'', ''__lookupSetter__'']"

text \<open>\<open>this.map[id] || null\<close>: an own entry first, then the inherited members.\<close>

definition map_get :: "(string \<rightharpoonup> cell) \<Rightarrow> string \<Rightarrow> entry option" where
  "map_get m i =
     (case m i of
        Some c \<Rightarrow> Some (Member c)
      | None \<Rightarrow> (if i \<in> set object_members then Some (Inherited i) else None))"

text \<open>The second parameter of \<open>add\<close>: \<open>number | AddOptions | undefined\<close>.\<close>

datatype index_arg = Num int | Opts options | NoIndex

datatype removed = ROne "cell option" | RMany "cell list"

section \<open>Array primitives\<close>

text \<open>\<open>xs[i]\<close>: \<open>undefined\<close> outside the array.\<close>

definition nth_opt :: "'a list \<Rightarrow> int \<Rightarrow> 'a option" where
  "nth_opt xs i = (if 0 \<le> i \<and> i < int (length xs) then Some (xs ! nat i) else None)"

text \<open>The start position \<open>Array.prototype.splice\<close> computes: a negative start counts from
  the end, and the result is clamped to the array.\<close>

definition splice_start :: "'a list \<Rightarrow> int \<Rightarrow> nat" where
  "splice_start xs start =
     (let n = int (length xs)
      in nat (if start < 0 then max (n + start) 0 else min start n))"

text \<open>\<open>xs.splice(start, 0, ...items)\<close>\<close>

definition splice_insert :: "'a list \<Rightarrow> int \<Rightarrow> 'a list \<Rightarrow> 'a list" where
  "splice_insert xs start items =
     take (splice_start xs start) xs @ items @ drop (splice_start xs start) xs"

text \<open>\<open>xs.splice(start, 1)\<close>\<close>

definition splice_delete :: "'a list \<Rightarrow> int \<Rightarrow> 'a list" where
  "splice_delete xs start =
     take (splice_start xs start) xs @ drop (Suc (splice_start xs start)) xs"

text \<open>\<open>xs.indexOf(x)\<close>: the first position of \<open>x\<close>, or \<open>-1\<close>.\<close>

fun index_of :: "'a list \<Rightarrow> 'a \<Rightarrow> int" where
  "index_of [] x = -1"
| "index_of (y # ys) x =
     (if y = x then 0 else (let r = index_of ys x in if r < 0 then -1 else r + 1))"

text \<open>
  \<open>Array.prototype.sort(compare)\<close> is a stable sort. For a comparator that is a
  consistent ordering every stable sort gives the same array; the model is the stable
  insertion sort, with \<open>le a b\<close> standing for \<open>compare(a, b) <= 0\<close>.
\<close>

fun insert_by :: "('a \<Rightarrow> 'a \<Rightarrow> bool) \<Rightarrow> 'a \<Rightarrow> 'a list \<Rightarrow> 'a list" where
  "insert_by le x [] = [x]"
| "insert_by le x (y # ys) = (if le x y then x # y # ys else y # insert_by le x ys)"

definition sort_by :: "('a \<Rightarrow> 'a \<Rightarrow> bool) \<Rightarrow> 'a list \<Rightarrow> 'a list" where
  "sort_by le xs = foldr (insert_by le) xs []"

section \<open>The property store and \<open>ArrayExt.sortBy\<close>\<close>

text \<open>Modelled from the spec: the class of the property store (\<open>cell.store\<close>) is not among
  the sources. Of its \<open>get\<close>, the spec says that \<open>get()\<close> yields the store's full data.\<close>

definition store_get :: "prop_store \<Rightarrow> (string \<rightharpoonup> int)" where
  "store_get st = data st"

text \<open>Modelled from the spec: \<open>store.set(data, options)\<close> of the missing store class. The
  spec: the existing store is overwritten with the incoming data, a shallow merge at the
  level of the store. The keys whose value the call changed are kept for \<open>hasChanged\<close>.\<close>

definition store_set :: "prop_store \<Rightarrow> (string \<rightharpoonup> int) \<Rightarrow> prop_store" where
  "store_set st d =
     \<lparr>data = data st ++ d, changed = (\<lambda>k. d k \<noteq> None \<and> d k \<noteq> data st k)\<rparr>"

text \<open>Modelled from the spec: \<open>store.hasChanged(sortAttr)\<close> of the missing store class. The
  spec: a re-sort is scheduled if the comparator's key changed; a comparator function
  has no key.\<close>

definition hasChanged :: "prop_store \<Rightarrow> comparator \<Rightarrow> bool" where
  "hasChanged st cmp =
     (case cmp of
        ByKey k \<Rightarrow> changed st k
      | ByKeys ks \<Rightarrow> list_ex (changed st) ks
      | ByFunction f \<Rightarrow> False)"

text \<open>Modelled from the spec: the resolution of a property path by \<open>ArrayExt.sortBy\<close>
  (module \<open>util\<close>), which is not among the sources. A path resolves in the cell's store;
  a cell without the property sorts after every cell that has it.\<close>

definition resolve :: "(nat \<Rightarrow> prop_store) \<Rightarrow> cell \<Rightarrow> string \<Rightarrow> bool \<times> int" where
  "resolve h c k = (case data (h (store_ref c)) k of Some v \<Rightarrow> (False, v) | None \<Rightarrow> (True, 0))"

text \<open>Modelled from the spec: the sort key of \<open>ArrayExt.sortBy\<close> for a list of paths. The
  spec: ties on earlier keys are broken by later keys, which is the lexicographic order
  of the lists of resolved values.\<close>

definition sort_keys :: "(nat \<Rightarrow> prop_store) \<Rightarrow> string list \<Rightarrow> cell \<Rightarrow> (bool \<times> int) list" where
  "sort_keys h ks c = map (resolve h c) ks"

text \<open>Modelled from the spec: \<open>ArrayExt.sortBy\<close> (module \<open>util\<close>) is not among the sources.
  The spec: a single-key or multi-key comparator performs a stable ascending sort on
  the resolved property paths, final ties keeping their relative order.\<close>

definition sortBy :: "(nat \<Rightarrow> prop_store) \<Rightarrow> string list \<Rightarrow> cell list \<Rightarrow> cell list" where
  "sortBy h ks xs = sort_by (\<lambda>a b. sort_keys h ks a \<le> sort_keys h ks b) xs"

section \<open>The collection\<close>

definition trigger :: "collection \<Rightarrow> event \<Rightarrow> collection" where
  "trigger s e = s\<lparr>events := events s @ [e]\<rparr>"

definition clean :: "collection \<Rightarrow> collection" where
  "clean s = s\<lparr>len := 0, cells := [], cmap := Map.empty\<rparr>"

definition cell_events :: "cell \<Rightarrow> string list" where
  "cell_events c =
     [''changed'', ''disposed'', ''change:zIndex'']
     @ (if is_edge c then [''change:source'', ''change:target''] else [])"

definition reference :: "collection \<Rightarrow> cell \<Rightarrow> collection" where
  "reference s c =
     s\<lparr>cmap := (cmap s)(cid c \<mapsto> c),
       listeners := listeners s @ map (Pair c) (cell_events c)\<rparr>"

definition unreference :: "collection \<Rightarrow> cell \<Rightarrow> collection" where
  "unreference s c =
     s\<lparr>listeners := filter (\<lambda>l. l \<notin> set (map (Pair c) (cell_events c))) (listeners s),
       cmap := (cmap s)(cid c := None)\<rparr>"

text \<open>\<open>get(obj)\<close> for a cell or \<open>null\<close>, and \<open>get(id)\<close> for a string.\<close>

definition get :: "collection \<Rightarrow> cell option \<Rightarrow> entry option" where
  "get s obj = (case obj of None \<Rightarrow> None | Some c \<Rightarrow> map_get (cmap s) (cid c))"

definition get_id :: "collection \<Rightarrow> string \<Rightarrow> entry option" where
  "get_id s i = map_get (cmap s) i"

definition has :: "collection \<Rightarrow> cell option \<Rightarrow> bool" where
  "has s obj = (get s obj \<noteq> None)"

definition at :: "collection \<Rightarrow> int \<Rightarrow> cell option" where
  "at s index = nth_opt (cells s) (if index < 0 then index + len s else index)"

definition first :: "collection \<Rightarrow> cell option" where
  "first s = at s 0"

definition last_cell :: "collection \<Rightarrow> cell option" where
  "last_cell s = at s (-1)"

definition toArray :: "collection \<Rightarrow> cell list" where
  "toArray s = cells s"

text \<open>\<open>sort(options = {})\<close>\<close>

definition sort_cells :: "collection \<Rightarrow> options option \<Rightarrow> collection" where
  "sort_cells s options =
     (let opts = or_empty options
      in case comparator s of
           None \<Rightarrow> s
         | Some cmp \<Rightarrow>
             (let s1 = s\<lparr>cells :=
                        (case cmp of
                           ByFunction f \<Rightarrow> sort_by (\<lambda>a b. f (heap s) a b \<le> 0) (cells s)
                         | ByKey k \<Rightarrow> sortBy (heap s) [k] (cells s)
                         | ByKeys ks \<Rightarrow> sortBy (heap s) ks (cells s))\<rparr>
              in if \<not> truthy (opt_silent opts) then trigger s1 EvSort else s1))"

text \<open>\<open>{ merge: false, ...options }\<close>\<close>

definition merge_default :: "options option \<Rightarrow> options" where
  "merge_default options =
     (case options of
        None \<Rightarrow> empty_options\<lparr>opt_merge := Some False\<rparr>
      | Some o1 \<Rightarrow> (case opt_merge o1 of None \<Rightarrow> o1\<lparr>opt_merge := Some False\<rparr> | Some m \<Rightarrow> o1))"

text \<open>\<open>{ silent: true, ...options }\<close>\<close>

definition silent_default :: "options \<Rightarrow> options" where
  "silent_default o1 = (case opt_silent o1 of None \<Rightarrow> o1\<lparr>opt_silent := Some True\<rparr> | Some b \<Rightarrow> o1)"

text \<open>A comparator is falsy in \<open>this.comparator && ...\<close> and in
  \<open>options.comparator || null\<close> when it is absent or the empty string.\<close>

definition comparator_truthy :: "comparator option \<Rightarrow> bool" where
  "comparator_truthy c = (c \<noteq> None \<and> c \<noteq> Some (ByKey []))"

text \<open>
  The body of \<open>entities.forEach\<close> in \<open>add\<close>, on the running collection, the flag \<open>sort\<close>
  and the arrays \<open>added\<close> and \<open>merged\<close>; the second component of the result is the error the
  body threw, if any. The third parameter \<open>options\<close> of \<open>add\<close> is what the source hands to
  \<open>store.set\<close>. When \<open>existing\<close> is an inherited member, \<open>existing.store\<close> is \<open>undefined\<close>: it
  differs from \<open>cell.store\<close>, and \<open>existing.store.set\<close> throws.
\<close>

type_synonym add_acc = "collection \<times> bool \<times> cell list \<times> cell list"

definition add_entity ::
  "options \<Rightarrow> options option \<Rightarrow> bool \<Rightarrow> cell \<Rightarrow> add_acc \<Rightarrow> add_acc \<times> error option" where
  "add_entity localOptions options sortable c = (\<lambda>(s, srt, added, merged).
     case get s (Some c) of
       Some (Member existing) \<Rightarrow>
         if truthy (opt_merge localOptions) \<and> store_ref c \<noteq> store_ref existing then
           (let s1 = s\<lparr>heap := (heap s)(store_ref existing :=
                           store_set (heap s (store_ref existing))
                                     (store_get (heap s (store_ref c)))),
                        store_calls := store_calls s @ [StoreSet (store_ref existing) options]\<rparr>;
                srt1 = (if sortable \<and> \<not> srt
                        then (case comparator s of
                                None \<Rightarrow> srt
                              | Some cmp \<Rightarrow> hasChanged (heap s1 (store_ref existing)) cmp)
                        else srt)
            in ((s1, srt1, added, merged @ [existing]), None))
         else ((s, srt, added, merged), None)
     | Some (Inherited n) \<Rightarrow>
         if truthy (opt_merge localOptions)
         then ((s, srt, added, merged), Some TypeError)
         else ((s, srt, added, merged), None)
     | None \<Rightarrow> ((reference s c, srt, added @ [c], merged), None))"

text \<open>\<open>entities.forEach(...)\<close>: the body on each entity in turn, until one throws.\<close>

fun add_loop ::
  "options \<Rightarrow> options option \<Rightarrow> bool \<Rightarrow> cell list \<Rightarrow> add_acc \<Rightarrow> add_acc \<times> error option" where
  "add_loop localOptions options sortable [] acc = (acc, None)"
| "add_loop localOptions options sortable (c # cs) acc =
     (case add_entity localOptions options sortable c acc of
        (acc1, Some e) \<Rightarrow> (acc1, Some e)
      | (acc1, None) \<Rightarrow> add_loop localOptions options sortable cs acc1)"

text \<open>The index resolution at the head of \<open>add\<close>.\<close>

definition resolve_index :: "int \<Rightarrow> int \<Rightarrow> int" where
  "resolve_index n i =
     (let i1 = (if i > n then n else i)
      in if i1 < 0 then i1 + (n + 1) else i1)"

fun add_events :: "options \<Rightarrow> int \<Rightarrow> cell list \<Rightarrow> event list" where
  "add_events localOptions i [] = []"
| "add_events localOptions i (c # cs) = EvAdd c i localOptions # add_events localOptions (i + 1) cs"

text \<open>\<open>Array.isArray(cells) ? cells : [cells]\<close>\<close>

definition entities :: "'a one_or_many \<Rightarrow> 'a list" where
  "entities cells_arg = (case cells_arg of One c \<Rightarrow> [c] | Many cs \<Rightarrow> cs)"

text \<open>\<open>localOptions\<close>, the unresolved \<open>localIndex\<close> and \<open>sortable\<close> of \<open>add\<close>.\<close>

definition local_options :: "index_arg \<Rightarrow> options option \<Rightarrow> options" where
  "local_options index options =
     (case index of
        Num i \<Rightarrow> merge_default options
      | Opts o1 \<Rightarrow> merge_default (Some o1)
      | NoIndex \<Rightarrow> merge_default None)"

definition local_index :: "collection \<Rightarrow> index_arg \<Rightarrow> int" where
  "local_index s index =
     resolve_index (len s) (case index of Num i \<Rightarrow> i | Opts o1 \<Rightarrow> len s | NoIndex \<Rightarrow> len s)"

definition sortable :: "collection \<Rightarrow> index_arg \<Rightarrow> options option \<Rightarrow> bool" where
  "sortable s index options =
     (comparator_truthy (comparator s) \<and> index = NoIndex
      \<and> opt_sort (local_options index options) \<noteq> Some False)"

text \<open>The whole \<open>entities.forEach\<close> of \<open>add\<close>: the collection after it, the flag \<open>sort\<close>, the
  arrays \<open>added\<close> and \<open>merged\<close>, and the error if the loop threw.\<close>

definition add_partition ::
  "collection \<Rightarrow> cell one_or_many \<Rightarrow> index_arg \<Rightarrow> options option
   \<Rightarrow> add_acc \<times> error option" where
  "add_partition s cells_arg index options =
     add_loop (local_options index options) options (sortable s index options)
       (entities cells_arg) (s, False, [], [])"

text \<open>The value of \<open>sort\<close> when \<open>add\<close> tests it: set by a merge that changed the
  comparator's key, or by an insertion into a sortable collection.\<close>

definition add_sorts :: "collection \<Rightarrow> cell one_or_many \<Rightarrow> index_arg \<Rightarrow> options option \<Rightarrow> bool" where
  "add_sorts s cells_arg index options =
     (case fst (add_partition s cells_arg index options) of
        (s1, srt1, added, merged) \<Rightarrow>
          (if added \<noteq> [] \<and> sortable s index options then True else srt1))"

text \<open>The insertion: \<open>if (added.length) { ...; this.cells.splice(localIndex, 0, ...added);
  this.length = this.cells.length }\<close>.\<close>

definition add_spliced ::
  "collection \<Rightarrow> cell one_or_many \<Rightarrow> index_arg \<Rightarrow> options option \<Rightarrow> collection" where
  "add_spliced s cells_arg index options =
     (case fst (add_partition s cells_arg index options) of
        (s1, srt1, added, merged) \<Rightarrow>
          (if added \<noteq> []
           then s1\<lparr>cells := splice_insert (cells s1) (local_index s index) added,
                   len := int (length (splice_insert (cells s1) (local_index s index) added))\<rparr>
           else s1))"

text \<open>\<open>if (sort) { this.sort({ silent: true }) }\<close>\<close>

definition add_sorted ::
  "collection \<Rightarrow> cell one_or_many \<Rightarrow> index_arg \<Rightarrow> options option \<Rightarrow> collection" where
  "add_sorted s cells_arg index options =
     (if add_sorts s cells_arg index options
      then sort_cells (add_spliced s cells_arg index options)
             (Some (empty_options\<lparr>opt_silent := Some True\<rparr>))
      else add_spliced s cells_arg index options)"

text \<open>The events of the block \<open>if (!localOptions.silent) { ... }\<close>, in the order of the
  \<open>trigger\<close> calls.\<close>

definition add_emitted ::
  "collection \<Rightarrow> cell one_or_many \<Rightarrow> index_arg \<Rightarrow> options option \<Rightarrow> event list" where
  "add_emitted s cells_arg index options =
     (case fst (add_partition s cells_arg index options) of
        (s1, srt1, added, merged) \<Rightarrow>
          add_events (local_options index options) (local_index s index) added
          @ (if add_sorts s cells_arg index options then [EvSort] else [])
          @ (if added \<noteq> [] \<or> merged \<noteq> []
             then [EvUpdate added merged [] (local_options index options)] else []))"

text \<open>\<open>add\<close>: when the loop throws, nothing after it runs; otherwise the insertion, the sort
  and the events follow, and \<open>add\<close> returns (\<open>this\<close>).\<close>

definition add ::
  "collection \<Rightarrow> cell one_or_many \<Rightarrow> index_arg \<Rightarrow> options option
   \<Rightarrow> collection \<times> (error + unit)" where
  "add s cells_arg index options =
     (case add_partition s cells_arg index options of
        ((s1, srt1, added, merged), Some e) \<Rightarrow> (s1, Inl e)
      | (acc, None) \<Rightarrow>
          (let s3 = add_sorted s cells_arg index options
           in (if \<not> truthy (opt_silent (local_options index options))
               then s3\<lparr>events := events s3 @ add_emitted s cells_arg index options\<rparr>
               else s3,
               Inr ())))"

text \<open>
  The body of the loop of \<open>removeCells\<close>, on the running collection and \<open>removed\<close>, with the
  error it threw, if any. When \<open>get\<close> yields an inherited member, \<open>indexOf\<close> does not find it
  in \<open>cells\<close>, so \<open>splice(-1, 1)\<close> takes the last cell out; \<open>length\<close> is decremented; the member
  has no \<open>id\<close>, so \<open>delete this.map[cell.id]\<close> deletes the key \<open>undefined\<close>; and \<open>unreference\<close>
  calls \<open>cell.off\<close>, which the member lacks: a TypeError, before any event is triggered.
\<close>

definition remove_cell ::
  "options \<Rightarrow> cell option \<Rightarrow> collection \<times> cell list
   \<Rightarrow> (collection \<times> cell list) \<times> error option" where
  "remove_cell options x = (\<lambda>(s, removed).
     case get s x of
       None \<Rightarrow> ((s, removed), None)
     | Some (Member c) \<Rightarrow>
         (let index = index_of (cells s) c;
              s1 = s\<lparr>cells := splice_delete (cells s) index, len := len s - 1,
                     cmap := (cmap s)(cid c := None)\<rparr>;
              s2 = unreference s1 c;
              s3 = (if \<not> truthy (opt_silent options)
                    then trigger s2 (EvRemove c index options) else s2)
          in ((s3, removed @ [c]), None))
     | Some (Inherited n) \<Rightarrow>
         (let index = - 1;
              s1 = s\<lparr>cells := splice_delete (cells s) index, len := len s - 1,
                     cmap := (cmap s)(''undefined'' := None)\<rparr>
          in ((s1, removed), Some TypeError)))"

text \<open>The loop of \<open>removeCells\<close>: the body on each entry in turn, until one throws.\<close>

fun remove_loop ::
  "options \<Rightarrow> cell option list \<Rightarrow> collection \<times> cell list
   \<Rightarrow> (collection \<times> cell list) \<times> error option" where
  "remove_loop options [] acc = (acc, None)"
| "remove_loop options (x # xs) acc =
     (case remove_cell options x acc of
        (acc1, Some e) \<Rightarrow> (acc1, Some e)
      | (acc1, None) \<Rightarrow> remove_loop options xs acc1)"

definition removeCells ::
  "collection \<Rightarrow> cell option list \<Rightarrow> options
   \<Rightarrow> (collection \<times> cell list) \<times> error option" where
  "removeCells s xs options = remove_loop options xs (s, [])"

text \<open>\<open>remove(cells, options = {})\<close>; the argument of the single form may be \<open>null\<close>, as
  \<open>pop\<close> and \<open>shift\<close> pass what \<open>at\<close> returned.\<close>

definition remove ::
  "collection \<Rightarrow> cell option one_or_many \<Rightarrow> options option
   \<Rightarrow> collection \<times> (error + removed)" where
  "remove s cells_arg options =
     (let opts = or_empty options
      in case removeCells s (entities cells_arg) opts of
           ((s1, removed), Some e) \<Rightarrow> (s1, Inl e)
         | ((s1, removed), None) \<Rightarrow>
             (if \<not> truthy (opt_silent opts) \<and> removed \<noteq> []
              then trigger s1 (EvUpdate [] [] removed opts) else s1,
              Inr (case cells_arg of
                     Many cs \<Rightarrow> RMany removed
                   | One c \<Rightarrow> ROne (case removed of [] \<Rightarrow> None | r # rs \<Rightarrow> Some r))))"

text \<open>\<open>reset(cells, options = {})\<close>\<close>

definition reset ::
  "collection \<Rightarrow> cell one_or_many \<Rightarrow> options option \<Rightarrow> collection \<times> (error + unit)" where
  "reset s cells_arg options =
     (let opts = or_empty options;
          previous = cells s;
          s1 = fold (\<lambda>c t. unreference t c) previous s;
          s2 = clean s1
      in case add s2 cells_arg (Opts (silent_default opts)) None of
           (s3, Inl e) \<Rightarrow> (s3, Inl e)
         | (s3, Inr u) \<Rightarrow>
             (if \<not> truthy (opt_silent opts)
              then trigger s3 (EvReset previous (cells s3) opts) else s3,
              Inr ()))"

definition push :: "collection \<Rightarrow> cell \<Rightarrow> options option \<Rightarrow> collection \<times> (error + unit)" where
  "push s c options = add s (One c) (Num (len s)) options"

definition pop :: "collection \<Rightarrow> options option \<Rightarrow> collection \<times> (error + removed)" where
  "pop s options = remove s (One (at s (len s - 1))) options"

definition unshift :: "collection \<Rightarrow> cell \<Rightarrow> options option \<Rightarrow> collection \<times> (error + unit)" where
  "unshift s c options = add s (One c) (Num 0) options"

definition shift :: "collection \<Rightarrow> options option \<Rightarrow> collection \<times> (error + removed)" where
  "shift s options = remove s (One (at s 0)) options"

text \<open>
  The constructor, on the environment it starts in (heap, traces and handlers of \<open>env\<close>;
  its collection fields are overwritten): \<open>options.comparator || null\<close>, \<open>clean()\<close>, and
  \<open>reset(cells, { silent: true })\<close> when \<open>cells\<close> is given.
\<close>

definition new_collection ::
  "collection \<Rightarrow> cell one_or_many option \<Rightarrow> comparator option
   \<Rightarrow> collection \<times> (error + unit)" where
  "new_collection env cells_arg cmp =
     (let s0 = clean (env\<lparr>comparator := (if comparator_truthy cmp then cmp else None)\<rparr>)
      in case cells_arg of
           None \<Rightarrow> (s0, Inr ())
         | Some cs \<Rightarrow> reset s0 cs (Some (empty_options\<lparr>opt_silent := Some True\<rparr>)))"

text \<open>The public operations that change a collection. \<open>apply_op\<close> gives the collection
  after the call and whether the call returned; a run continues on the collection a thrown
  call left behind, as a caller does who catches the error.\<close>

datatype operation =
  OpAdd "cell one_or_many" index_arg "options option"
  | OpRemove "cell option one_or_many" "options option"
  | OpReset "cell one_or_many" "options option"
  | OpPush cell "options option"
  | OpPop "options option"
  | OpUnshift cell "options option"
  | OpShift "options option"
  | OpSort "options option"

definition forget :: "collection \<times> (error + 'a) \<Rightarrow> collection \<times> (error + unit)" where
  "forget r = (fst r, case snd r of Inl e \<Rightarrow> Inl e | Inr v \<Rightarrow> Inr ())"

fun apply_op :: "collection \<Rightarrow> operation \<Rightarrow> collection \<times> (error + unit)" where
  "apply_op s (OpAdd cs i options) = add s cs i options"
| "apply_op s (OpRemove cs options) = forget (remove s cs options)"
| "apply_op s (OpReset cs options) = reset s cs options"
| "apply_op s (OpPush c options) = push s c options"
| "apply_op s (OpPop options) = forget (pop s options)"
| "apply_op s (OpUnshift c options) = unshift s c options"
| "apply_op s (OpShift options) = forget (shift s options)"
| "apply_op s (OpSort options) = (sort_cells s options, Inr ())"

definition run :: "collection \<Rightarrow> operation list \<Rightarrow> collection" where
  "run s ops = foldl (\<lambda>t op1. fst (apply_op t op1)) s ops"

text \<open>A call returned, and every call of a run returned.\<close>

definition returned :: "collection \<times> (error + 'a) \<Rightarrow> bool" where
  "returned r = (case snd r of Inl e \<Rightarrow> False | Inr v \<Rightarrow> True)"

fun all_returned :: "collection \<Rightarrow> operation list \<Rightarrow> bool" where
  "all_returned s [] = True"
| "all_returned s (op1 # ops) =
     (returned (apply_op s op1) \<and> all_returned (fst (apply_op s op1)) ops)"

section \<open>The bijection between index and sequence\<close>

text \<open>\<open>indexed xs m\<close>: no two cells of \<open>xs\<close> share an id, and \<open>m\<close> maps an id to a cell exactly
  when that cell is in \<open>xs\<close> under that id.\<close>

definition indexed :: "cell list \<Rightarrow> (string \<rightharpoonup> cell) \<Rightarrow> bool" where
  "indexed xs m \<longleftrightarrow>
     distinct (map cid xs) \<and> (\<forall>i c. m i = Some c \<longleftrightarrow> c \<in> set xs \<and> cid c = i)"

definition in_bijection :: "collection \<Rightarrow> bool" where
  "in_bijection s \<longleftrightarrow>
     distinct (map cid (cells s))
     \<and> (\<forall>i c. cmap s i = Some c \<longleftrightarrow> c \<in> set (cells s) \<and> cid c = i)
     \<and> len s = int (length (cells s))
     \<and> card (dom (cmap s)) = length (cells s)"

text \<open>What the loop of \<open>add\<close> keeps true: the sequence is untouched while the index already
  covers the cells queued in \<open>added\<close>.\<close>

definition partition_inv :: "collection \<Rightarrow> add_acc \<Rightarrow> bool" where
  "partition_inv s = (\<lambda>(t, srt, added, merged).
      cells t = cells s \<and> len t = len s \<and> events t = events s \<and> comparator t = comparator s
      \<and> indexed (cells s @ added) (cmap t))"

section \<open>Auxiliary notions of the claims\<close>

text \<open>The first element of each \<open>f\<close>-value, in the order of the list.\<close>

fun firsts_by :: "('a \<Rightarrow> 'b) \<Rightarrow> 'a list \<Rightarrow> 'a list" where
  "firsts_by f [] = []"
| "firsts_by f (x # xs) = x # firsts_by f (filter (\<lambda>y. f y \<noteq> f x) xs)"

text \<open>The entities an \<open>add\<close> inserts: those whose id the collection does not hold, in the
  order of the input, one per id.\<close>

definition added_of :: "collection \<Rightarrow> cell one_or_many \<Rightarrow> cell list" where
  "added_of s cs = firsts_by cid (filter (\<lambda>c. get s (Some c) = None) (entities cs))"

text \<open>The arrays \<open>added\<close> and \<open>merged\<close> after the loop of \<open>add\<close>.\<close>

definition add_added :: "collection \<Rightarrow> cell one_or_many \<Rightarrow> index_arg \<Rightarrow> options option \<Rightarrow> cell list" where
  "add_added s cs index options =
     (case fst (add_partition s cs index options) of (s1, srt1, added, merged) \<Rightarrow> added)"

definition add_merged :: "collection \<Rightarrow> cell one_or_many \<Rightarrow> index_arg \<Rightarrow> options option \<Rightarrow> cell list" where
  "add_merged s cs index options =
     (case fst (add_partition s cs index options) of (s1, srt1, added, merged) \<Rightarrow> merged)"

definition is_reset :: "event \<Rightarrow> bool" where
  "is_reset e = (case e of EvReset previous current opts \<Rightarrow> True | _ \<Rightarrow> False)"

section \<open>Example inputs\<close>

definition cell_a :: cell where
  "cell_a = \<lparr>oid = 1, cid = ''a'', store_ref = 1, is_edge = False\<rparr>"

definition cell_b :: cell where
  "cell_b = \<lparr>oid = 2, cid = ''b'', store_ref = 2, is_edge = False\<rparr>"

definition cell_c :: cell where
  "cell_c = \<lparr>oid = 3, cid = ''c'', store_ref = 3, is_edge = True\<rparr>"

text \<open>A second object with the id of \<open>cell_a\<close> and a store of its own.\<close>

definition cell_a2 :: cell where
  "cell_a2 = \<lparr>oid = 4, cid = ''a'', store_ref = 4, is_edge = False\<rparr>"

definition heap0 :: "nat \<Rightarrow> prop_store" where
  "heap0 r =
     \<lparr>data = (if r = 1 then [''zIndex'' \<mapsto> 2]
              else if r = 4 then [''zIndex'' \<mapsto> 0, ''w'' \<mapsto> 7]
              else [''zIndex'' \<mapsto> 1]),
      changed = (\<lambda>k. False)\<rparr>"

definition env0 :: collection where
  "env0 = \<lparr>len = 0, cells = [], cmap = Map.empty, comparator = None, heap = heap0,
           events = [], store_calls = [], listeners = []\<rparr>"

text \<open>A cell whose id names an inherited member.\<close>

definition cell_k :: cell where
  "cell_k = \<lparr>oid = 5, cid = ''constructor'', store_ref = 5, is_edge = False\<rparr>"

definition col_ab :: collection where
  "col_ab = fst (new_collection env0 (Some (Many [cell_a, cell_b])) None)"

definition col_z :: collection where
  "col_z = fst (new_collection env0 (Some (Many [cell_a, cell_b, cell_c]))
                  (Some (ByKey ''zIndex'')))"

text \<open>An empty collection ordered by \<open>zIndex\<close>.\<close>

definition col_e :: collection where
  "col_e = fst (new_collection env0 None (Some (ByKey ''zIndex'')))"

text \<open>Options with \<open>merge\<close> and one more entry, and options with an explicit
  \<open>silent: false\<close>.\<close>

definition merge_opts :: options where
  "merge_opts = \<lparr>opt_silent = None, opt_merge = Some True, opt_sort = None,
                 opt_rest = [(''flag'', 1)]\<rparr>"

definition loud_opts :: options where
  "loud_opts = \<lparr>opt_silent = Some False, opt_merge = None, opt_sort = None, opt_rest = []\<rparr>"

section \<open>Evaluation of the examples\<close>

lemmas model_defs = add_def add_sorted_def add_spliced_def add_emitted_def add_partition_def
  add_sorts_def add_entity_def local_options_def local_index_def
  sortable_def entities_def merge_default_def silent_default_def empty_options_def or_empty_def
  truthy_def
  comparator_truthy_def resolve_index_def splice_insert_def splice_start_def splice_delete_def
  reference_def unreference_def cell_events_def get_def map_get_def object_members_def
  forget_def clean_def trigger_def reset_def
  new_collection_def remove_def removeCells_def remove_cell_def sort_cells_def sortBy_def sort_by_def
  sort_keys_def resolve_def store_get_def store_set_def hasChanged_def at_def nth_opt_def
  push_def pop_def shift_def unshift_def first_def last_cell_def run_def

lemmas example_defs = cell_a_def cell_b_def cell_c_def cell_a2_def heap0_def env0_def

lemma col_ab_fields:
  "cells col_ab = [cell_a, cell_b]" "len col_ab = 2" "events col_ab = []"
  "comparator col_ab = None" "heap col_ab = heap0" "store_calls col_ab = []"
  "cmap col_ab = [''a'' \<mapsto> cell_a, ''b'' \<mapsto> cell_b]"
  by (simp_all add: col_ab_def model_defs env0_def cell_a_def cell_b_def Let_def)

lemma col_ab_returned:
  "snd (new_collection env0 (Some (Many [cell_a, cell_b])) None) = Inr ()"
  by (simp add: model_defs env0_def cell_a_def cell_b_def Let_def)

lemma col_z_fields:
  "cells col_z = [cell_a, cell_b, cell_c]" "len col_z = 3" "events col_z = []"
  "comparator col_z = Some (ByKey ''zIndex'')" "heap col_z = heap0"
  by (simp_all add: col_z_def model_defs env0_def cell_a_def cell_b_def cell_c_def Let_def)

section \<open>Sorting\<close>

lemma mset_insert_by: "mset (insert_by le x xs) = add_mset x (mset xs)"
  by (induction xs) auto

lemma mset_sort_by: "mset (sort_by le xs) = mset xs"
  by (induction xs) (auto simp: sort_by_def mset_insert_by)

lemma set_insert_by: "set (insert_by le x xs) = insert x (set xs)"
  by (induction xs) auto

lemma sorted_insert_by_key:
  fixes f :: "'a \<Rightarrow> 'k::linorder"
  shows "sorted_wrt (\<lambda>a b. f a \<le> f b) xs
    \<Longrightarrow> sorted_wrt (\<lambda>a b. f a \<le> f b) (insert_by (\<lambda>a b. f a \<le> f b) x xs)"
  by (induction xs) (auto simp: set_insert_by)

lemma sorted_sort_by_key:
  fixes f :: "'a \<Rightarrow> 'k::linorder"
  shows "sorted_wrt (\<lambda>a b. f a \<le> f b) (sort_by (\<lambda>a b. f a \<le> f b) xs)"
  by (induction xs) (auto simp: sort_by_def sorted_insert_by_key)

lemma filter_insert_by_key:
  fixes f :: "'a \<Rightarrow> 'k::linorder"
  shows "sorted_wrt (\<lambda>a b. f a \<le> f b) xs
    \<Longrightarrow> filter (\<lambda>y. f y = k) (insert_by (\<lambda>a b. f a \<le> f b) x xs)
        = (if f x = k then x # filter (\<lambda>y. f y = k) xs else filter (\<lambda>y. f y = k) xs)"
proof (induction xs)
  case Nil
  then show ?case by simp
next
  case (Cons y ys)
  show ?case
  proof (cases "f x \<le> f y")
    case True
    then show ?thesis by simp
  next
    case False
    then have "f y \<noteq> f x" by auto
    with False Cons show ?thesis by auto
  qed
qed

lemma sort_by_key_stable:
  fixes f :: "'a \<Rightarrow> 'k::linorder"
  shows "filter (\<lambda>y. f y = k) (sort_by (\<lambda>a b. f a \<le> f b) xs) = filter (\<lambda>y. f y = k) xs"
proof (induction xs)
  case Nil
  then show ?case by (simp add: sort_by_def)
next
  case (Cons x xs)
  have "sort_by (\<lambda>a b. f a \<le> f b) (x # xs)
        = insert_by (\<lambda>a b. f a \<le> f b) x (sort_by (\<lambda>a b. f a \<le> f b) xs)"
    by (simp add: sort_by_def)
  then show ?case
    using Cons filter_insert_by_key [OF sorted_sort_by_key, of f k x xs] by simp
qed

section \<open>The index invariant\<close>

lemma indexed_dom: "indexed xs m \<Longrightarrow> dom m = cid ` set xs"
  unfolding indexed_def by (auto simp: dom_def) 

lemma indexed_card: "indexed xs m \<Longrightarrow> card (dom m) = length xs"
proof -
  assume a: "indexed xs m"
  then have "card (dom m) = card (set (map cid xs))" by (simp add: indexed_dom)
  also have "\<dots> = length (map cid xs)" using a by (intro distinct_card) (simp add: indexed_def)
  finally show ?thesis by simp
qed

lemma bijection_iff: "in_bijection s \<longleftrightarrow> indexed (cells s) (cmap s) \<and> len s = int (length (cells s))"
  using indexed_card [of "cells s" "cmap s"] by (auto simp: in_bijection_def indexed_def)

lemma indexed_mset: "mset xs = mset ys \<Longrightarrow> indexed xs m \<Longrightarrow> indexed ys m"
proof -
  assume e: "mset xs = mset ys" and i: "indexed xs m"
  have "mset (map cid xs) = mset (map cid ys)" using e by simp
  then have "distinct (map cid xs) = distinct (map cid ys)" by (rule mset_eq_imp_distinct_iff)
  moreover have "set xs = set ys" using e by (rule mset_eq_setD)
  ultimately show ?thesis using i by (simp add: indexed_def)
qed

lemma indexed_empty: "indexed [] Map.empty"
  by (simp add: indexed_def)

lemma indexed_snoc:
  assumes "indexed xs m" and "m (cid c) = None"
  shows "indexed (xs @ [c]) (m(cid c \<mapsto> c))"
proof -
  have n: "cid x \<noteq> cid c" if "x \<in> set xs" for x
  proof
    assume "cid x = cid c"
    with that assms(1) have "m (cid c) = Some x" by (simp add: indexed_def)
    with assms(2) show False by simp
  qed
  have "cid c \<notin> cid ` set xs"
  proof
    assume "cid c \<in> cid ` set xs"
    then obtain x where "x \<in> set xs" and "cid c = cid x" by (rule imageE)
    with n [of x] show False by simp
  qed
  then have d: "distinct (map cid (xs @ [c]))" using assms(1) by (simp add: indexed_def)
  have "((m(cid c \<mapsto> c)) i = Some x) = (x \<in> set (xs @ [c]) \<and> cid x = i)" for i x
  proof (cases "i = cid c")
    case True
    then show ?thesis using n [of x] by auto
  next
    case False
    then show ?thesis using assms(1) by (auto simp: indexed_def)
  qed
  with d show ?thesis unfolding indexed_def by blast
qed

lemma mset_splice_insert: "mset (splice_insert xs i ys) = mset (xs @ ys)"
proof -
  have "mset (take n xs) + mset (drop n xs) = mset xs" for n
    by (metis append_take_drop_id mset_append)
  then show ?thesis by (simp add: splice_insert_def add.commute add.left_commute)
qed

lemma map_get_None: "map_get m i = None \<Longrightarrow> m i = None"
  by (simp add: map_get_def split: option.splits if_splits)

lemma map_get_Member: "map_get m i = Some (Member c) \<longleftrightarrow> m i = Some c"
  by (auto simp: map_get_def split: option.splits)

lemma map_get_Inherited:
  "map_get m i = Some (Inherited n) \<longleftrightarrow> m i = None \<and> i \<in> set object_members \<and> n = i"
  by (auto simp: map_get_def split: option.splits)

lemma add_entity_inv:
  assumes "partition_inv s acc"
  shows "partition_inv s (fst (add_entity lo opts sb c acc))"
proof -
  obtain t srt added merged where acc: "acc = (t, srt, added, merged)" by (cases acc) auto
  show ?thesis
  proof (cases "get t (Some c)")
    case None
    then have n: "cmap t (cid c) = None" by (simp add: get_def map_get_None)
    have "add_entity lo opts sb c acc = ((reference t c, srt, added @ [c], merged), None)"
      using None by (simp add: acc add_entity_def)
    moreover have "indexed ((cells s @ added) @ [c]) ((cmap t)(cid c \<mapsto> c))"
      using assms n by (intro indexed_snoc) (simp_all add: acc partition_inv_def)
    ultimately show ?thesis using assms by (simp add: acc partition_inv_def reference_def)
  next
    case (Some e)
    then show ?thesis using assms
      by (cases e) (simp_all add: acc add_entity_def partition_inv_def Let_def)
  qed
qed

lemma add_loop_inv:
  "partition_inv s acc \<Longrightarrow> partition_inv s (fst (add_loop lo opts sb es acc))"
proof (induction es arbitrary: acc)
  case Nil
  then show ?case by simp
next
  case (Cons c es)
  obtain acc1 r where step: "add_entity lo opts sb c acc = (acc1, r)"
    by (cases "add_entity lo opts sb c acc") auto
  have i: "partition_inv s acc1" using add_entity_inv [OF Cons.prems, of lo opts sb c] step by simp
  show ?case
  proof (cases r)
    case None
    then show ?thesis using Cons.IH [OF i] step by simp
  next
    case (Some e)
    then show ?thesis using i step by simp
  qed
qed

lemma add_partition_inv:
  assumes "indexed (cells s) (cmap s)"
  shows "partition_inv s (fst (add_partition s cs index options))"
  unfolding add_partition_def using assms
  by (intro add_loop_inv) (simp add: partition_inv_def)

lemma sort_cells_mset: "mset (cells (sort_cells s options)) = mset (cells s)"
  by (simp add: sort_cells_def Let_def trigger_def sortBy_def mset_sort_by
           split: option.splits comparator.splits)

lemma sort_cells_frame:
  "cmap (sort_cells s options) = cmap s" "len (sort_cells s options) = len s"
  "comparator (sort_cells s options) = comparator s" "heap (sort_cells s options) = heap s"
  by (simp_all add: sort_cells_def Let_def trigger_def split: option.splits)

lemma sort_cells_bijection: "in_bijection s \<Longrightarrow> in_bijection (sort_cells s options)"
proof -
  assume b: "in_bijection s"
  have m: "mset (cells s) = mset (cells (sort_cells s options))" by (simp add: sort_cells_mset)
  have "indexed (cells (sort_cells s options)) (cmap s)"
    using b indexed_mset [OF m] by (simp add: bijection_iff)
  moreover have "length (cells (sort_cells s options)) = length (cells s)"
    using m by (metis mset_eq_length)
  ultimately show ?thesis using b by (simp add: bijection_iff sort_cells_frame)
qed

lemma returned_simps:
  "returned (s, Inr v)" "\<not> returned (s, Inl e)"
  by (simp_all add: returned_def)

lemma add_cases:
  obtains (threw) t srt1 added merged e where
      "add_partition s cs index options = ((t, srt1, added, merged), Some e)"
      "add s cs index options = (t, Inl e)"
  | (returned) "snd (add_partition s cs index options) = None"
      "add s cs index options
       = (if \<not> truthy (opt_silent (local_options index options))
          then (add_sorted s cs index options)
                 \<lparr>events := events (add_sorted s cs index options) @ add_emitted s cs index options\<rparr>
          else add_sorted s cs index options,
          Inr ())"
proof -
  obtain t srt1 added merged r where
    p: "add_partition s cs index options = ((t, srt1, added, merged), r)"
    by (cases "add_partition s cs index options") auto
  show ?thesis
  proof (cases r)
    case None
    with p show ?thesis by (intro returned) (simp_all add: add_def Let_def)
  next
    case (Some e)
    with p show ?thesis by (intro threw [of t srt1 added merged e]) (simp_all add: add_def)
  qed
qed

lemma add_returned_iff:
  "returned (add s cs index options) \<longleftrightarrow> snd (add_partition s cs index options) = None"
  by (cases s cs index options rule: add_cases) (simp_all add: returned_def)

lemma add_bijection:
  assumes "in_bijection s" and "returned (add s cs index options)"
  shows "in_bijection (fst (add s cs index options))"
proof -
  obtain t srt1 added merged where
    p: "fst (add_partition s cs index options) = (t, srt1, added, merged)"
    by (cases "fst (add_partition s cs index options)") auto
  have i: "indexed (cells s) (cmap s)" and l: "len s = int (length (cells s))"
    using assms by (simp_all add: bijection_iff)
  have pi: "cells t = cells s" "len t = len s" "indexed (cells s @ added) (cmap t)"
    using add_partition_inv [OF i, of cs index options] by (simp_all add: p partition_inv_def)
  have b2: "in_bijection (add_spliced s cs index options)"
  proof (cases "added = []")
    case True
    then show ?thesis using pi l by (simp add: add_spliced_def p bijection_iff)
  next
    case False
    have "mset (cells s @ added) = mset (splice_insert (cells s) (local_index s index) added)"
      by (simp add: mset_splice_insert)
    from indexed_mset [OF this pi(3)] show ?thesis using False pi
      by (simp add: add_spliced_def p bijection_iff)
  qed
  then have b3: "in_bijection (add_sorted s cs index options)"
    by (simp add: add_sorted_def sort_cells_bijection)
  show ?thesis
  proof (cases s cs index options rule: add_cases)
    case (threw t srt1 added merged e)
    then show ?thesis using assms(2) by (simp add: returned_def)
  next
    case returned
    then show ?thesis using b3 by (simp add: bijection_iff)
  qed
qed

lemma index_of_absent: "x \<notin> set xs \<Longrightarrow> index_of xs x = -1"
  by (induction xs) (auto simp: Let_def)

lemma index_of_bounds: "x \<in> set xs \<Longrightarrow> 0 \<le> index_of xs x \<and> index_of xs x < int (length xs)"
  by (induction xs) (auto simp: Let_def)

lemma index_of_nth: "x \<in> set xs \<Longrightarrow> xs ! nat (index_of xs x) = x"
proof (induction xs)
  case Nil
  then show ?case by simp
next
  case (Cons y ys)
  show ?case
  proof (cases "y = x")
    case True
    then show ?thesis by simp
  next
    case False
    with Cons.prems have m: "x \<in> set ys" by simp
    then have z: "0 \<le> index_of ys x" by (simp add: index_of_bounds)
    then have "nat (index_of ys x + 1) = Suc (nat (index_of ys x))" by simp
    with False m Cons.IH z show ?thesis by (simp add: Let_def)
  qed
qed

lemma splice_start_in_range: "0 \<le> i \<Longrightarrow> i \<le> int (length xs) \<Longrightarrow> splice_start xs i = nat i"
  by (simp add: splice_start_def Let_def)

lemma splice_start_le: "splice_start xs i \<le> length xs"
  by (auto simp: splice_start_def Let_def)

lemma splice_delete_index_of:
  "x \<in> set xs \<Longrightarrow> splice_delete xs (index_of xs x) = remove1 x xs"
proof (induction xs)
  case Nil
  then show ?case by simp
next
  case (Cons y ys)
  show ?case
  proof (cases "y = x")
    case True
    then show ?thesis by (simp add: splice_delete_def splice_start_def)
  next
    case False
    with Cons.prems have m: "x \<in> set ys" by simp
    then have b: "0 \<le> index_of ys x" "index_of ys x < int (length ys)"
      by (simp_all add: index_of_bounds)
    then have s: "splice_start ys (index_of ys x) = nat (index_of ys x)"
      "splice_start (y # ys) (index_of ys x + 1) = Suc (nat (index_of ys x))"
      by (simp_all add: splice_start_def Let_def nat_add_distrib)
    from Cons.IH [OF m] False b s show ?thesis
      by (simp add: splice_delete_def Let_def)
  qed
qed

lemma indexed_remove1:
  assumes "indexed xs m" and "c \<in> set xs"
  shows "indexed (remove1 c xs) (m(cid c := None))"
proof -
  have dm: "distinct (map cid xs)" using assms(1) by (simp add: indexed_def)
  then have d: "distinct xs" by (simp add: distinct_map)
  have inj: "inj_on cid (set xs)" using dm by (simp add: distinct_map)
  have s: "set (remove1 c xs) = set xs - {c}" using d by simp
  have d': "distinct (map cid (remove1 c xs))"
    using dm d by (simp add: distinct_map s inj_on_diff)
  have "((m(cid c := None)) i = Some x) = (x \<in> set (remove1 c xs) \<and> cid x = i)" for i x
  proof (cases "i = cid c")
    case True
    have "x = c" if "x \<in> set xs" "cid x = cid c"
      using inj that assms(2) by (auto dest: inj_onD)
    then show ?thesis using True by (auto simp: s)
  next
    case False
    then show ?thesis using assms(1) by (auto simp: s indexed_def)
  qed
  with d' show ?thesis unfolding indexed_def by blast
qed

lemma remove_cell_member:
  assumes "in_bijection t" and "get t x = Some (Member c)"
  shows "\<exists>t'. remove_cell opts x (t, rs) = ((t', rs @ [c]), None)
              \<and> cells t' = remove1 c (cells t) \<and> cmap t' = (cmap t)(cid c := None)
              \<and> len t' = len t - 1
              \<and> events t' = events t @ (if truthy (opt_silent opts) then []
                                          else [EvRemove c (index_of (cells t) c) opts])"
    and "c \<in> set (cells t)"
proof -
  have "cmap t (cid c) = Some c \<and> c \<in> set (cells t)"
    using assms by (auto simp: get_def map_get_Member in_bijection_def split: option.splits)
  then show m: "c \<in> set (cells t)" ..
  show "\<exists>t'. remove_cell opts x (t, rs) = ((t', rs @ [c]), None)
              \<and> cells t' = remove1 c (cells t) \<and> cmap t' = (cmap t)(cid c := None)
              \<and> len t' = len t - 1
              \<and> events t' = events t @ (if truthy (opt_silent opts) then []
                                          else [EvRemove c (index_of (cells t) c) opts])"
    using assms(2)
    by (simp add: remove_cell_def Let_def unreference_def trigger_def
          splice_delete_index_of [OF m])
qed

lemma remove_cell_bijection:
  assumes "in_bijection (fst acc)" and "snd (remove_cell opts x acc) = None"
  shows "in_bijection (fst (fst (remove_cell opts x acc)))"
proof -
  obtain s removed where acc: "acc = (s, removed)" by (cases acc) auto
  have b: "in_bijection s" "indexed (cells s) (cmap s)" "len s = int (length (cells s))"
    using assms(1) by (simp_all add: acc bijection_iff)
  show ?thesis
  proof (cases "get s x")
    case None
    then show ?thesis using assms(1) by (simp add: acc remove_cell_def)
  next
    case (Some e)
    show ?thesis
    proof (cases e)
      case (Member c)
      with Some have g: "get s x = Some (Member c)" by simp
      obtain t' where r: "remove_cell opts x (s, removed) = ((t', removed @ [c]), None)"
        "cells t' = remove1 c (cells s)" "cmap t' = (cmap s)(cid c := None)"
        "len t' = len s - 1"
        using remove_cell_member(1) [OF b(1) g, of opts removed] by blast
      have m: "c \<in> set (cells s)" using remove_cell_member(2) [OF b(1) g] .
      then have "length (cells s) = Suc (length (remove1 c (cells s)))"
        using length_pos_if_in_set [of c "cells s"] by (simp add: length_remove1)
      then have l: "len s - 1 = int (length (remove1 c (cells s)))" using b(3) by simp
      have i: "indexed (remove1 c (cells s)) ((cmap s)(cid c := None))"
        using b(2) m by (rule indexed_remove1)
      show ?thesis using r i l by (simp add: acc bijection_iff)
    next
      case (Inherited n)
      with Some assms(2) show ?thesis by (simp add: acc remove_cell_def Let_def)
    qed
  qed
qed

lemma remove_loop_bijection:
  "in_bijection (fst acc) \<Longrightarrow> snd (remove_loop opts xs acc) = None
   \<Longrightarrow> in_bijection (fst (fst (remove_loop opts xs acc)))"
proof (induction xs arbitrary: acc)
  case Nil
  then show ?case by simp
next
  case (Cons x xs)
  obtain acc1 r where step: "remove_cell opts x acc = (acc1, r)"
    by (cases "remove_cell opts x acc") auto
  show ?case
  proof (cases r)
    case None
    have "in_bijection (fst acc1)"
      using remove_cell_bijection [OF Cons.prems(1), of opts x] step None by simp
    moreover have "snd (remove_loop opts xs acc1) = None"
      using Cons.prems(2) step None by simp
    ultimately show ?thesis using Cons.IH [of acc1] step None by simp
  next
    case (Some e)
    then show ?thesis using Cons.prems(2) step by simp
  qed
qed

lemma remove_cases:
  obtains (threw) t rs e where
      "removeCells s (entities cs) (or_empty options) = ((t, rs), Some e)"
      "remove s cs options = (t, Inl e)"
  | (returned) t rs where
      "removeCells s (entities cs) (or_empty options) = ((t, rs), None)"
      "remove s cs options
       = (if \<not> truthy (opt_silent (or_empty options)) \<and> rs \<noteq> []
          then trigger t (EvUpdate [] [] rs (or_empty options)) else t,
          Inr (case cs of
                 Many xs \<Rightarrow> RMany rs
               | One x \<Rightarrow> ROne (case rs of [] \<Rightarrow> None | r # rs' \<Rightarrow> Some r)))"
proof -
  obtain t rs r where p: "removeCells s (entities cs) (or_empty options) = ((t, rs), r)"
    by (cases "removeCells s (entities cs) (or_empty options)") auto
  show ?thesis
  proof (cases r)
    case None
    with p show ?thesis by (intro returned [of t rs]) (simp_all add: remove_def Let_def)
  next
    case (Some e)
    with p show ?thesis by (intro threw [of t rs e]) (simp_all add: remove_def Let_def)
  qed
qed

lemma remove_bijection:
  assumes "in_bijection s" and "returned (remove s cs options)"
  shows "in_bijection (fst (remove s cs options))"
proof (cases s cs options rule: remove_cases)
  case (threw t rs e)
  then show ?thesis using assms(2) by (simp add: returned_def)
next
  case (returned t rs)
  have "in_bijection (fst (fst (remove_loop (or_empty options) (entities cs) (s, []))))"
    using returned(1) assms(1)
    by (intro remove_loop_bijection) (simp_all add: removeCells_def)
  then have "in_bijection t" using returned(1) by (simp add: removeCells_def)
  then show ?thesis by (simp add: returned(2) trigger_def bijection_iff)
qed

lemma fold_unreference_frame:
  "len (fold (\<lambda>c t. unreference t c) xs s) = len s"
  "cells (fold (\<lambda>c t. unreference t c) xs s) = cells s"
  "events (fold (\<lambda>c t. unreference t c) xs s) = events s"
  "comparator (fold (\<lambda>c t. unreference t c) xs s) = comparator s"
  "heap (fold (\<lambda>c t. unreference t c) xs s) = heap s"
  by (induction xs arbitrary: s) (simp_all add: unreference_def)

lemma clean_bijection: "in_bijection (clean s)"
  by (simp add: in_bijection_def clean_def)

lemma reset_cases:
  obtains (threw) t e where
      "add (clean (fold (\<lambda>c t. unreference t c) (cells s) s)) cs
         (Opts (silent_default (or_empty options))) None = (t, Inl e)"
      "reset s cs options = (t, Inl e)"
  | (returned) t where
      "add (clean (fold (\<lambda>c t. unreference t c) (cells s) s)) cs
         (Opts (silent_default (or_empty options))) None = (t, Inr ())"
      "reset s cs options
       = (if \<not> truthy (opt_silent (or_empty options))
          then trigger t (EvReset (cells s) (cells t) (or_empty options)) else t,
          Inr ())"
proof -
  obtain t r where p: "add (clean (fold (\<lambda>c t. unreference t c) (cells s) s)) cs
         (Opts (silent_default (or_empty options))) None = (t, r)"
    by (cases "add (clean (fold (\<lambda>c t. unreference t c) (cells s) s)) cs
         (Opts (silent_default (or_empty options))) None") auto
  show ?thesis
  proof (cases r)
    case (Inl e)
    with p show ?thesis by (intro threw [of t e]) (simp_all add: reset_def Let_def)
  next
    case (Inr u)
    with p show ?thesis by (intro returned [of t]) (simp_all add: reset_def Let_def)
  qed
qed

lemma reset_bijection:
  assumes "returned (reset s cs options)"
  shows "in_bijection (fst (reset s cs options))"
proof (cases s cs options rule: reset_cases)
  case (threw t e)
  then show ?thesis using assms by (simp add: returned_def)
next
  case (returned t)
  have "in_bijection t"
    using add_bijection [OF clean_bijection, of "fold (\<lambda>c t. unreference t c) (cells s) s" cs
        "Opts (silent_default (or_empty options))" None] returned(1)
    by (simp add: returned_def)
  then show ?thesis by (simp add: returned(2) trigger_def bijection_iff)
qed

lemma returned_forget [simp]: "returned (forget r) = returned r"
  by (simp add: returned_def forget_def split: sum.splits)

lemma fst_forget [simp]: "fst (forget r) = fst r"
  by (simp add: forget_def)

lemma apply_op_bijection:
  "in_bijection s \<Longrightarrow> returned (apply_op s op1) \<Longrightarrow> in_bijection (fst (apply_op s op1))"
  by (cases op1)
     (simp_all add: add_bijection remove_bijection reset_bijection sort_cells_bijection
        push_def pop_def unshift_def shift_def)

lemma run_bijection:
  "in_bijection s \<Longrightarrow> all_returned s ops \<Longrightarrow> in_bijection (run s ops)"
  unfolding run_def by (induction ops arbitrary: s) (simp_all add: apply_op_bijection)

section \<open>What \<open>add\<close> inserts and emits\<close>

lemma set_firsts_by: "set (firsts_by f xs) \<subseteq> set xs"
proof (induction f xs rule: firsts_by.induct)
  case (1 f)
  then show ?case by simp
next
  case (2 f x xs)
  then show ?case by auto
qed

lemma add_entity_cases:
  obtains (fresh) "get t (Some c) = None"
      "add_entity lo opts sb c (t, srt, added, merged)
       = ((reference t c, srt, added @ [c], merged), None)"
  | (kept) t1 srt1 merged1 where "get t (Some c) \<noteq> None"
      "add_entity lo opts sb c (t, srt, added, merged) = ((t1, srt1, added, merged1), None)"
      "cmap t1 = cmap t" "cells t1 = cells t" "len t1 = len t" "events t1 = events t"
      "comparator t1 = comparator t" "\<not> sb \<longrightarrow> srt1 = srt"
      "\<not> truthy (opt_merge lo) \<longrightarrow> t1 = t \<and> srt1 = srt \<and> merged1 = merged"
  | (threw) n where "get t (Some c) = Some (Inherited n)" "truthy (opt_merge lo)"
      "add_entity lo opts sb c (t, srt, added, merged) = ((t, srt, added, merged), Some TypeError)"
proof (cases "get t (Some c)")
  case None
  then show ?thesis by (intro fresh) (simp_all add: add_entity_def)
next
  case (Some e)
  show ?thesis
  proof (cases e)
    case (Member existing)
    show ?thesis
    proof (cases "truthy (opt_merge lo) \<and> store_ref c \<noteq> store_ref existing")
      case True
      define t1 where "t1 = t\<lparr>heap := (heap t)(store_ref existing :=
                           store_set (heap t (store_ref existing))
                                     (store_get (heap t (store_ref c)))),
                        store_calls := store_calls t @ [StoreSet (store_ref existing) opts]\<rparr>"
      define srt1 where "srt1 = (if sb \<and> \<not> srt
                        then (case comparator t of
                                None \<Rightarrow> srt
                              | Some cmp \<Rightarrow> hasChanged (heap t1 (store_ref existing)) cmp)
                        else srt)"
      have "add_entity lo opts sb c (t, srt, added, merged)
            = ((t1, srt1, added, merged @ [existing]), None)"
        using Some Member True unfolding t1_def srt1_def by (simp add: add_entity_def Let_def)
      then show ?thesis using Some True
        by (intro kept [of t1 srt1 "merged @ [existing]"]) (simp_all add: t1_def srt1_def)
    next
      case False
      with Some Member show ?thesis
        by (intro kept [of t srt merged]) (auto simp: add_entity_def Let_def)
    qed
  next
    case (Inherited n)
    show ?thesis
    proof (cases "truthy (opt_merge lo)")
      case True
      with Some Inherited show ?thesis by (intro threw [of n]) (simp_all add: add_entity_def)
    next
      case False
      with Some Inherited show ?thesis
        by (intro kept [of t srt merged]) (simp_all add: add_entity_def)
    qed
  qed
qed

lemma get_reference_iff:
  assumes "get t (Some c) = None"
  shows "(get (reference t c) (Some x) = None) = (cid x \<noteq> cid c \<and> get t (Some x) = None)"
proof -
  have "cmap t (cid c) = None" "cid c \<notin> set object_members"
    using assms by (simp_all add: get_def map_get_def split: option.splits if_splits)
  then show ?thesis
    by (auto simp: get_def map_get_def reference_def split: option.splits if_splits)
qed

lemma reference_frame:
  "cells (reference t c) = cells t" "len (reference t c) = len t"
  "events (reference t c) = events t" "comparator (reference t c) = comparator t"
  by (simp_all add: reference_def)

lemma filter_fresh_reference:
  assumes "get t (Some c) = None"
  shows "filter (\<lambda>x. get (reference t c) (Some x) = None) es
         = filter (\<lambda>y. cid y \<noteq> cid c) (filter (\<lambda>x. get t (Some x) = None) es)"
  by (simp add: get_reference_iff [OF assms] conj_commute)

lemma inherited_fresh_reference:
  assumes "get t (Some c) = None"
  shows "(\<exists>n. get (reference t c) (Some x) = Some (Inherited n))
         = (\<exists>n. get t (Some x) = Some (Inherited n))"
proof -
  have "cmap t (cid c) = None" "cid c \<notin> set object_members"
    using assms by (simp_all add: get_def map_get_def split: option.splits if_splits)
  then show ?thesis
    by (auto simp: get_def map_get_def reference_def split: option.splits if_splits)
qed

lemma same_cmap_get: "cmap t1 = cmap t \<Longrightarrow> get t1 x = get t x"
  by (simp add: get_def split: option.splits)

text \<open>The loop throws exactly when \<open>merge\<close> is set and some entity's id resolves to an
  inherited member.\<close>

lemma add_loop_throws:
  "snd (add_loop lo opts sb es (t, srt, added, merged)) \<noteq> None
   \<longleftrightarrow> truthy (opt_merge lo) \<and> (\<exists>c\<in>set es. \<exists>n. get t (Some c) = Some (Inherited n))"
proof (induction es arbitrary: t srt added merged)
  case Nil
  then show ?case by simp
next
  case (Cons c es)
  show ?case
  proof (cases rule: add_entity_cases [where t=t and c=c and lo=lo and opts=opts and sb=sb
      and srt=srt and added=added and merged=merged])
    case fresh
    then show ?thesis
      using Cons.IH [of "reference t c" srt "added @ [c]" merged]
      by (simp add: inherited_fresh_reference)
  next
    case (kept t1 srt1 merged1)
    have "get t (Some c) = Some (Inherited n) \<Longrightarrow> \<not> truthy (opt_merge lo)" for n
    proof
      assume i: "get t (Some c) = Some (Inherited n)" and m: "truthy (opt_merge lo)"
      then have "add_entity lo opts sb c (t, srt, added, merged)
                 = ((t, srt, added, merged), Some TypeError)"
        by (simp add: add_entity_def)
      with kept(2) show False by simp
    qed
    then show ?thesis
      using Cons.IH [of t1 srt1 added merged1] kept
      by (auto simp: same_cmap_get [OF kept(3)])
  next
    case (threw n)
    then show ?thesis by auto
  qed
qed

lemma add_loop_frame:
  "add_loop lo opts sb es (t, srt, added, merged) = ((t', srt', added', merged'), r)
   \<Longrightarrow> cells t' = cells t \<and> len t' = len t \<and> events t' = events t
       \<and> comparator t' = comparator t \<and> (\<not> sb \<longrightarrow> srt' = srt)
       \<and> set added' \<subseteq> set added \<union> {c \<in> set es. get t (Some c) = None}
       \<and> (r = None \<longrightarrow>
            added' = added @ firsts_by cid (filter (\<lambda>c. get t (Some c) = None) es))"
proof (induction es arbitrary: t srt added merged)
  case Nil
  then show ?case by simp
next
  case (Cons c es)
  show ?case
  proof (cases rule: add_entity_cases [where t=t and c=c and lo=lo and opts=opts and sb=sb
      and srt=srt and added=added and merged=merged])
    case fresh
    with Cons.prems have "add_loop lo opts sb es (reference t c, srt, added @ [c], merged)
                          = ((t', srt', added', merged'), r)"
      by simp
    note ih = Cons.IH [OF this]
    have sub: "set added' \<subseteq> set added \<union> {x \<in> set (c # es). get t (Some x) = None}"
      using ih fresh(1) by (auto simp: get_reference_iff [OF fresh(1)])
    have ex: "added' = added @ firsts_by cid (filter (\<lambda>x. get t (Some x) = None) (c # es))"
      if "r = None"
      using ih that fresh(1) by (simp add: filter_fresh_reference [OF fresh(1)])
    show ?thesis using ih sub ex by (simp add: reference_frame)
  next
    case (kept t1 srt1 merged1)
    with Cons.prems have "add_loop lo opts sb es (t1, srt1, added, merged1)
                          = ((t', srt', added', merged'), r)"
      by simp
    from Cons.IH [OF this] kept show ?thesis
      by (auto simp: same_cmap_get [OF kept(3)])
  next
    case (threw n)
    with Cons.prems show ?thesis by auto
  qed
qed

lemma add_loop_present:
  assumes "\<forall>c\<in>set es. get t (Some c) \<noteq> None" and "\<not> truthy (opt_merge lo)"
  shows "add_loop lo opts sb es (t, srt, added, merged) = ((t, srt, added, merged), None)"
  using assms(1)
proof (induction es)
  case Nil
  then show ?case by simp
next
  case (Cons c es)
  show ?case
  proof (cases rule: add_entity_cases [where t=t and c=c and lo=lo and opts=opts and sb=sb
      and srt=srt and added=added and merged=merged])
    case fresh
    with Cons.prems show ?thesis by simp
  next
    case (kept t1 srt1 merged1)
    with assms(2) Cons show ?thesis by simp
  next
    case (threw n)
    with assms(2) show ?thesis by simp
  qed
qed

lemma add_returned_char:
  "returned (add s cs index options)
   \<longleftrightarrow> \<not> (truthy (opt_merge (local_options index options))
          \<and> (\<exists>c\<in>set (entities cs). \<exists>n. get s (Some c) = Some (Inherited n)))"
  using add_loop_throws [of "local_options index options" options "sortable s index options"
      "entities cs" s False "[]" "[]"]
  by (auto simp: add_returned_iff add_partition_def)

lemma add_partition_frame:
  assumes "fst (add_partition s cs index options) = (t, srt1, added, merged)"
  shows "cells t = cells s" "len t = len s" "events t = events s" "comparator t = comparator s"
    "\<not> sortable s index options \<Longrightarrow> \<not> srt1"
    "added = add_added s cs index options" "merged = add_merged s cs index options"
    "set added \<subseteq> {c \<in> set (entities cs). get s (Some c) = None}"
    "returned (add s cs index options) \<Longrightarrow> added = added_of s cs"
proof -
  obtain r where p: "add_loop (local_options index options) options (sortable s index options)
                       (entities cs) (s, False, [], []) = ((t, srt1, added, merged), r)"
    using assms by (cases "add_partition s cs index options") (auto simp: add_partition_def)
  note f = add_loop_frame [OF p]
  show "cells t = cells s" "len t = len s" "events t = events s" "comparator t = comparator s"
    "\<not> sortable s index options \<Longrightarrow> \<not> srt1"
    "set added \<subseteq> {c \<in> set (entities cs). get s (Some c) = None}"
    using f by simp_all
  show "added = add_added s cs index options" "merged = add_merged s cs index options"
    using assms by (simp_all add: add_added_def add_merged_def)
  show "added = added_of s cs" if "returned (add s cs index options)"
  proof -
    have "r = None" using that p by (simp add: add_returned_iff add_partition_def)
    with f show ?thesis by (simp add: added_of_def)
  qed
qed

lemma add_added_eq: "returned (add s cs index options) \<Longrightarrow> add_added s cs index options = added_of s cs"
proof -
  assume r: "returned (add s cs index options)"
  obtain t srt1 added merged where
    p: "fst (add_partition s cs index options) = (t, srt1, added, merged)"
    by (cases "fst (add_partition s cs index options)") auto
  from add_partition_frame(6,9) [OF p] r show ?thesis by simp
qed

lemma add_added_absent: "c \<in> set (add_added s cs index options) \<Longrightarrow> get s (Some c) = None"
proof -
  obtain t srt1 added merged where
    p: "fst (add_partition s cs index options) = (t, srt1, added, merged)"
    by (cases "fst (add_partition s cs index options)") auto
  from add_partition_frame(6,8) [OF p] show "c \<in> set (add_added s cs index options) \<Longrightarrow> get s (Some c) = None"
    by auto
qed

lemma add_present_noop:
  assumes "\<forall>c\<in>set (entities cs). get s (Some c) \<noteq> None"
    and "\<not> truthy (opt_merge (local_options index options))"
  shows "add s cs index options = (s, Inr ())"
proof -
  have p: "add_partition s cs index options = ((s, False, [], []), None)"
    unfolding add_partition_def using assms by (intro add_loop_present) simp_all
  then have "add_sorts s cs index options = False" by (simp add: add_sorts_def)
  moreover have "add_spliced s cs index options = s" by (simp add: add_spliced_def p)
  moreover have "add_emitted s cs index options = []"
    using p by (simp add: add_emitted_def add_sorts_def)
  ultimately show ?thesis by (simp add: add_def add_sorted_def Let_def p)
qed

lemma splice_insert_Nil: "splice_insert xs i [] = xs"
  by (simp add: splice_insert_def)

lemma add_spliced_fields:
  "cells (add_spliced s cs index options)
   = splice_insert (cells s) (local_index s index) (add_added s cs index options)"
  "events (add_spliced s cs index options) = events s"
  "comparator (add_spliced s cs index options) = comparator s"
proof -
  obtain t srt1 added merged where
    p: "fst (add_partition s cs index options) = (t, srt1, added, merged)"
    by (cases "fst (add_partition s cs index options)") auto
  note f = add_partition_frame [OF p]
  show "cells (add_spliced s cs index options)
   = splice_insert (cells s) (local_index s index) (add_added s cs index options)"
    using f(1,6) by (simp add: add_spliced_def p splice_insert_Nil)
  show "events (add_spliced s cs index options) = events s"
    using f by (simp add: add_spliced_def p)
  show "comparator (add_spliced s cs index options) = comparator s"
    using f by (simp add: add_spliced_def p)
qed

lemma add_sorts_sortable: "add_sorts s cs index options \<Longrightarrow> sortable s index options"
proof (rule ccontr)
  assume a: "add_sorts s cs index options" and ns: "\<not> sortable s index options"
  obtain t srt1 added merged where
    p: "fst (add_partition s cs index options) = (t, srt1, added, merged)"
    by (cases "fst (add_partition s cs index options)") auto
  from add_partition_frame(5) [OF p ns] a ns show False by (simp add: add_sorts_def p)
qed

lemma add_sorts_explicit_index: "index \<noteq> NoIndex \<Longrightarrow> \<not> add_sorts s cs index options"
  using add_sorts_sortable [of s cs index options] by (auto simp: sortable_def)

lemma sort_cells_silent_events:
  "events (sort_cells s (Some (empty_options\<lparr>opt_silent := Some True\<rparr>))) = events s"
  by (simp add: sort_cells_def Let_def truthy_def or_empty_def split: option.splits)

lemma add_sorted_events: "events (add_sorted s cs index options) = events s"
  by (simp add: add_sorted_def sort_cells_silent_events add_spliced_fields)

lemma add_thrown_state:
  assumes "\<not> returned (add s cs index options)"
  shows "cells (fst (add s cs index options)) = cells s"
    "len (fst (add s cs index options)) = len s"
    "events (fst (add s cs index options)) = events s"
    "snd (add s cs index options) = Inl TypeError"
proof -
  from assms obtain t srt1 added merged e where
    p: "add_partition s cs index options = ((t, srt1, added, merged), Some e)"
    and a: "add s cs index options = (t, Inl e)"
    by (cases s cs index options rule: add_cases) (simp_all add: returned_def)
  have "fst (add_partition s cs index options) = (t, srt1, added, merged)" using p by simp
  note f = add_partition_frame [OF this]
  show "cells (fst (add s cs index options)) = cells s"
    "len (fst (add s cs index options)) = len s"
    "events (fst (add s cs index options)) = events s"
    using f a by simp_all
  show "snd (add s cs index options) = Inl TypeError" using a by (cases e) simp
qed

lemma add_returned_state:
  assumes "returned (add s cs index options)"
  shows "cells (fst (add s cs index options)) = cells (add_sorted s cs index options)"
    "events (fst (add s cs index options))
     = events s @ (if truthy (opt_silent (local_options index options)) then []
                   else add_emitted s cs index options)"
    "snd (add s cs index options) = Inr ()"
  using assms
  by (cases s cs index options rule: add_cases; simp add: returned_def add_sorted_events)+

lemma add_cells_unsorted:
  "returned (add s cs index options) \<Longrightarrow> \<not> add_sorts s cs index options
   \<Longrightarrow> cells (fst (add s cs index options))
       = splice_insert (cells s) (local_index s index) (added_of s cs)"
  by (simp add: add_returned_state add_sorted_def add_spliced_fields add_added_eq)

lemma add_emitted_eq:
  "add_emitted s cs index options
   = add_events (local_options index options) (local_index s index) (add_added s cs index options)
     @ (if add_sorts s cs index options then [EvSort] else [])
     @ (if add_added s cs index options \<noteq> [] \<or> add_merged s cs index options \<noteq> []
        then [EvUpdate (add_added s cs index options) (add_merged s cs index options) []
                (local_options index options)]
        else [])"
proof -
  obtain t srt1 added merged where
    p: "fst (add_partition s cs index options) = (t, srt1, added, merged)"
    by (cases "fst (add_partition s cs index options)") auto
  note f = add_partition_frame [OF p]
  show ?thesis using f(6,7) by (simp add: add_emitted_def p)
qed

lemma add_events_length: "length (add_events lo i xs) = length xs"
  by (induction xs arbitrary: i) simp_all

lemma add_events_nth:
  "j < length xs \<Longrightarrow> add_events lo i xs ! j = EvAdd (xs ! j) (i + int j) lo"
proof (induction xs arbitrary: i j)
  case Nil
  then show ?case by simp
next
  case (Cons x xs)
  show ?case
  proof (cases j)
    case 0
    then show ?thesis by simp
  next
    case (Suc k)
    with Cons.prems have "k < length xs" by simp
    from Cons.IH [OF this, of "i + 1"] Suc show ?thesis by simp
  qed
qed

lemma add_events_cells: "EvAdd c i lo' \<in> set (add_events lo j xs) \<Longrightarrow> c \<in> set xs"
  by (induction xs arbitrary: j) auto

lemma resolve_index_le: "resolve_index n i \<le> n"
  by (simp add: resolve_index_def Let_def)

lemma local_index_le: "local_index s index \<le> len s"
  by (simp add: local_index_def resolve_index_le)

lemma mset_add_cells:
  "mset (cells (fst (add s cs index options)))
   = mset (cells s) + (if returned (add s cs index options) then mset (added_of s cs) else {#})"
proof (cases "returned (add s cs index options)")
  case True
  have "mset (cells (add_sorted s cs index options))
        = mset (splice_insert (cells s) (local_index s index) (added_of s cs))"
    using True by (simp add: add_sorted_def sort_cells_mset add_spliced_fields add_added_eq)
  then show ?thesis using True by (simp add: add_returned_state mset_splice_insert)
next
  case False
  then show ?thesis by (simp add: add_thrown_state)
qed

lemma added_of_absent: "c \<in> set (added_of s cs) \<Longrightarrow> get s (Some c) = None"
  using set_firsts_by [of cid "filter (\<lambda>c. get s (Some c) = None) (entities cs)"]
  by (auto simp: added_of_def)

lemma add_emitted_adds:
  "EvAdd c i lo \<in> set (add_emitted s cs index options) \<Longrightarrow> get s (Some c) = None"
  by (auto simp: add_emitted_eq dest: add_events_cells add_added_absent split: if_splits)

lemma add_explicit_index_cells:
  "returned (add s cs (Num i) options) \<Longrightarrow>
   cells (fst (add s cs (Num i) options))
   = take (splice_start (cells s) (resolve_index (len s) i)) (cells s) @ added_of s cs
     @ drop (splice_start (cells s) (resolve_index (len s) i)) (cells s)"
  using add_cells_unsorted [OF _ add_sorts_explicit_index, of s cs "Num i" options]
  by (simp add: splice_insert_def local_index_def)

lemma add_emitted_no_reset: "e \<in> set (add_emitted s cs index options) \<Longrightarrow> \<not> is_reset e"
proof -
  have "e \<in> set (add_events lo i xs) \<Longrightarrow> \<not> is_reset e" for lo i xs
    by (induction xs arbitrary: i) (auto simp: is_reset_def)
  then show "e \<in> set (add_emitted s cs index options) \<Longrightarrow> \<not> is_reset e"
    by (auto simp: add_emitted_eq is_reset_def split: if_splits)
qed

lemma reset_returned_iff:
  "returned (reset s cs options)
   \<longleftrightarrow> returned (add (clean (fold (\<lambda>c t. unreference t c) (cells s) s)) cs
                  (Opts (silent_default (or_empty options))) None)"
  by (cases s cs options rule: reset_cases) (simp_all add: returned_def)

lemma new_collection_returned: "returned (new_collection env cs cmp)"
proof (cases cs)
  case None
  then show ?thesis by (simp add: new_collection_def returned_def)
next
  case (Some xs)
  have "\<not> truthy (opt_merge (local_options
          (Opts (silent_default (or_empty (Some (empty_options\<lparr>opt_silent := Some True\<rparr>))))) None))"
    by (simp add: local_options_def merge_default_def silent_default_def or_empty_def
          empty_options_def truthy_def)
  then show ?thesis using Some
    by (simp add: new_collection_def Let_def reset_returned_iff add_returned_char)
qed

lemma new_collection_bijection: "in_bijection (fst (new_collection env cs cmp))"
proof (cases cs)
  case None
  then show ?thesis by (simp add: new_collection_def clean_bijection)
next
  case (Some xs)
  then show ?thesis
    using new_collection_returned [of env cs cmp]
    by (simp add: new_collection_def Let_def reset_bijection)
qed

section \<open>Claims\<close>

lemma get_examples:
  "get col_ab (Some cell_a) = Some (Member cell_a)" "get col_ab (Some cell_b) = Some (Member cell_b)"
  "get col_ab (Some cell_a2) = Some (Member cell_a)" "get col_ab (Some cell_c) = None"
  "get col_ab (Some cell_k) = Some (Inherited ''constructor'')" "get col_ab None = None"
  by (simp_all add: get_def map_get_def object_members_def col_ab_fields
        cell_a_def cell_a2_def cell_b_def cell_c_def cell_k_def)

lemma added_of_examples:
  "added_of col_ab (One cell_c) = [cell_c]"
  "added_of col_ab (Many [cell_c, cell_a2]) = [cell_c]"
  "added_of col_ab (Many [cell_c, cell_k]) = [cell_c]"
  by (simp_all add: added_of_def entities_def get_examples)

lemma returned_examples:
  "returned (add col_ab (One cell_c) index options)"
  "returned (add col_ab (One cell_a2) index options)"
  "returned (add col_ab (Many [cell_c, cell_a2]) index options)"
  by (simp_all add: add_returned_char entities_def get_examples)

lemma col_e_fields:
  "cells col_e = []" "len col_e = 0" "events col_e = []"
  "comparator col_e = Some (ByKey ''zIndex'')" "heap col_e = heap0" "cmap col_e = Map.empty"
  by (simp_all add: col_e_def new_collection_def clean_def comparator_truthy_def env0_def Let_def)

lemma remove_inherited_example:
  "remove col_ab (One (Some cell_k)) None
   = (col_ab\<lparr>cells := [cell_a], len := 1, cmap := (cmap col_ab)(''undefined'' := None)\<rparr>,
      Inl TypeError)"
  by (simp add: remove_def removeCells_def remove_cell_def entities_def get_examples Let_def
        col_ab_fields splice_delete_def splice_start_def)

text \<open>
  C1. The claim: after each of the public operations the index and the sequence are in
  bijection. Evaluated on \<open>col_ab\<close>, which is in bijection: \<open>remove\<close> of a cell that is not in
  the collection and whose id is \<open>constructor\<close> throws after it took the last cell out of the
  sequence; the index still holds that cell, and after the next call, a \<open>sort\<close> that returns,
  index and sequence are not in bijection.
\<close>

theorem bijection_lost_after_inherited_id:
  "in_bijection col_ab
   \<and> cell_k \<notin> set (cells col_ab)
   \<and> snd (apply_op col_ab (OpRemove (One (Some cell_k)) None)) = Inl TypeError
   \<and> cells (fst (apply_op col_ab (OpRemove (One (Some cell_k)) None))) = [cell_a]
   \<and> len (fst (apply_op col_ab (OpRemove (One (Some cell_k)) None))) = 1
   \<and> cmap (fst (apply_op col_ab (OpRemove (One (Some cell_k)) None))) ''b'' = Some cell_b
   \<and> returned (apply_op (fst (apply_op col_ab (OpRemove (One (Some cell_k)) None))) (OpSort None))
   \<and> \<not> in_bijection (run col_ab [OpRemove (One (Some cell_k)) None, OpSort None])"
proof -
  define s1 where
    "s1 = col_ab\<lparr>cells := [cell_a], len := 1, cmap := (cmap col_ab)(''undefined'' := None)\<rparr>"
  have b: "in_bijection col_ab"
    unfolding col_ab_def by (rule new_collection_bijection)
  have k: "cell_k \<notin> set (cells col_ab)"
    by (simp add: col_ab_fields cell_a_def cell_b_def cell_k_def)
  have r: "remove col_ab (One (Some cell_k)) None = (s1, Inl TypeError)"
    by (simp add: remove_inherited_example s1_def)
  have f: "cells s1 = [cell_a]" "len s1 = 1" "cmap s1 ''b'' = Some cell_b" "comparator s1 = None"
    by (simp_all add: s1_def col_ab_fields)
  have s: "sort_cells s1 None = s1" by (simp add: sort_cells_def f)
  have nb: "cell_b \<notin> set (cells s1)" by (simp add: f cell_a_def cell_b_def)
  have n: "\<not> in_bijection s1"
  proof
    assume "in_bijection s1"
    then have "\<forall>i c. cmap s1 i = Some c \<longleftrightarrow> c \<in> set (cells s1) \<and> cid c = i"
      unfolding in_bijection_def by (elim conjE)
    then have "cell_b \<in> set (cells s1)" using f(3) by blast
    with nb show False ..
  qed
  have "run col_ab [OpRemove (One (Some cell_k)) None, OpSort None] = s1"
    using s by (simp add: run_def r)
  then show ?thesis using b k f n s by (simp add: r returned_def forget_def)
qed

lemma reset_cells:
  "cells (fst (reset s cs options))
   = (if returned (reset s cs options)
      then firsts_by cid (filter (\<lambda>c. cid c \<notin> set object_members) (entities cs)) else [])"
proof -
  let ?s2 = "clean (fold (\<lambda>c t. unreference t c) (cells s) s)"
  let ?ix = "Opts (silent_default (or_empty options))"
  have c2: "cells ?s2 = []" by (simp add: clean_def)
  have g: "(get ?s2 (Some c) = None) = (cid c \<notin> set object_members)" for c
    by (simp add: get_def map_get_def clean_def)
  have a: "added_of ?s2 cs = firsts_by cid (filter (\<lambda>c. cid c \<notin> set object_members) (entities cs))"
    by (simp add: added_of_def g)
  show ?thesis
  proof (cases "returned (add ?s2 cs ?ix None)")
    case True
    have "cells (fst (add ?s2 cs ?ix None))
          = splice_insert (cells ?s2) (local_index ?s2 ?ix) (added_of ?s2 cs)"
      using True by (intro add_cells_unsorted) (simp_all add: add_sorts_explicit_index)
    then have "cells (fst (add ?s2 cs ?ix None))
          = firsts_by cid (filter (\<lambda>c. cid c \<notin> set object_members) (entities cs))"
      by (simp add: a c2 splice_insert_def)
    then show ?thesis using True
      by (cases s cs options rule: reset_cases) (simp_all add: returned_def trigger_def)
  next
    case False
    from add_thrown_state(1) [OF False] have "cells (fst (add ?s2 cs ?ix None)) = []"
      by (simp add: c2)
    then show ?thesis using False
      by (cases s cs options rule: reset_cases) (simp_all add: returned_def trigger_def)
  qed
qed

text \<open>
  C2 (as amended). A \<open>reset\<close> that returns has triggered exactly one reset event, and none
  when the caller's options say \<open>silent\<close>; its \<open>previous\<close> is the sequence before the call and
  its \<open>current\<close> the sequence after it, which holds the first entity of each id of the input
  that the index accepts. The re-insert runs under \<open>{ silent: true, ...options }\<close>, so
  \<open>silent\<close> is a default there: whenever the caller's options have no \<open>silent\<close> entry or a true
  one, no other event is triggered during the reset. A \<open>reset\<close> that throws triggers no reset
  event and leaves the sequence empty.
\<close>

theorem reset_event_sequence:
  "(\<exists>inner. events (fst (reset s cs options))
           = events s @ inner
             @ (if returned (reset s cs options) \<and> \<not> truthy (opt_silent (or_empty options))
                then [EvReset (cells s) (cells (fst (reset s cs options))) (or_empty options)]
                else [])
         \<and> (\<forall>e\<in>set inner. \<not> is_reset e)
         \<and> (opt_silent (or_empty options) \<noteq> Some False \<longrightarrow> inner = []))
   \<and> cells (fst (reset s cs options))
       = (if returned (reset s cs options)
          then firsts_by cid (filter (\<lambda>c. cid c \<notin> set object_members) (entities cs)) else [])"
proof -
  let ?s2 = "clean (fold (\<lambda>c t. unreference t c) (cells s) s)"
  let ?ix = "Opts (silent_default (or_empty options))"
  let ?inner = "if returned (add ?s2 cs ?ix None)
                   \<and> \<not> truthy (opt_silent (local_options ?ix None))
                then add_emitted ?s2 cs ?ix None else []"
  have e2: "events ?s2 = events s" by (simp add: clean_def fold_unreference_frame)
  have ev: "events (fst (add ?s2 cs ?ix None)) = events s @ ?inner"
    by (cases "returned (add ?s2 cs ?ix None)")
       (simp_all add: add_returned_state add_thrown_state e2)
  have 1: "events (fst (reset s cs options))
           = events s @ ?inner
             @ (if returned (reset s cs options) \<and> \<not> truthy (opt_silent (or_empty options))
                then [EvReset (cells s) (cells (fst (reset s cs options))) (or_empty options)]
                else [])"
  proof (cases s cs options rule: reset_cases)
    case (threw t e)
    then show ?thesis using ev by (simp add: returned_def)
  next
    case (returned t)
    then show ?thesis using ev by (simp add: returned_def trigger_def)
  qed
  have 2: "\<forall>e\<in>set ?inner. \<not> is_reset e"
    by (auto dest: add_emitted_no_reset)
  have 3: "?inner = []" if "opt_silent (or_empty options) \<noteq> Some False"
  proof -
    have "opt_silent (local_options ?ix None) = Some True"
      using that
      by (cases "opt_silent (or_empty options)")
         (auto simp: local_options_def merge_default_def silent_default_def split: option.splits)
    then show ?thesis by (simp add: truthy_def)
  qed
  have "\<exists>inner. events (fst (reset s cs options))
           = events s @ inner
             @ (if returned (reset s cs options) \<and> \<not> truthy (opt_silent (or_empty options))
                then [EvReset (cells s) (cells (fst (reset s cs options))) (or_empty options)]
                else [])
         \<and> (\<forall>e\<in>set inner. \<not> is_reset e)
         \<and> (opt_silent (or_empty options) \<noteq> Some False \<longrightarrow> inner = [])"
    using 1 2 3 by blast
  then show ?thesis using reset_cells [of s cs options] by simp
qed

lemma reset_returned_examples:
  "returned (reset s (Many [cell_c, cell_c]) None)"
  "returned (reset s (Many [cell_c, cell_c]) (Some (empty_options\<lparr>opt_silent := Some True\<rparr>)))"
  "returned (reset s (One cell_c) (Some loud_opts))"
  by (simp_all add: reset_returned_iff add_returned_char local_options_def merge_default_def
        silent_default_def or_empty_def empty_options_def loud_opts_def truthy_def)

theorem reset_event_sequence_witness:
  "opt_silent (or_empty None) \<noteq> Some False
   \<and> returned (reset col_ab (Many [cell_c, cell_c]) None)
   \<and> events (fst (reset col_ab (Many [cell_c, cell_c]) None))
       = [EvReset [cell_a, cell_b] [cell_c] empty_options]
   \<and> events (fst (reset col_ab (Many [cell_c, cell_c])
                     (Some (empty_options\<lparr>opt_silent := Some True\<rparr>)))) = []
   \<and> cells (fst (reset col_ab (Many [cell_c, cell_c]) None)) = [cell_c]"
proof -
  have c: "firsts_by cid (filter (\<lambda>c. cid c \<notin> set object_members) (entities (Many [cell_c, cell_c])))
           = [cell_c]"
    by (simp add: entities_def object_members_def cell_c_def)
  have o: "opt_silent (or_empty None) \<noteq> Some False"
    "opt_silent (or_empty (Some (empty_options\<lparr>opt_silent := Some True\<rparr>))) \<noteq> Some False"
    by (simp_all add: or_empty_def empty_options_def)
  have t: "\<not> truthy (opt_silent (or_empty None))"
    "truthy (opt_silent (or_empty (Some (empty_options\<lparr>opt_silent := Some True\<rparr>))))"
    by (simp_all add: or_empty_def empty_options_def truthy_def)
  show ?thesis
    using reset_event_sequence [of col_ab "Many [cell_c, cell_c]" None]
      reset_event_sequence [of col_ab "Many [cell_c, cell_c]"
         "Some (empty_options\<lparr>opt_silent := Some True\<rparr>)"] o t
    by (auto simp: c col_ab_fields or_empty_def reset_returned_examples)
qed

text \<open>With an explicit \<open>silent: false\<close> the re-insert is not silent: an add event and an
  update event precede the reset event.\<close>

theorem reset_not_forced_silent_counterexample:
  "returned (reset col_ab (One cell_c) (Some loud_opts))
   \<and> events (fst (reset col_ab (One cell_c) (Some loud_opts)))
     = [EvAdd cell_c 0 (loud_opts\<lparr>opt_merge := Some False\<rparr>),
        EvUpdate [cell_c] [] [] (loud_opts\<lparr>opt_merge := Some False\<rparr>),
        EvReset [cell_a, cell_b] [cell_c] loud_opts]"
proof -
  let ?s2 = "clean (fold (\<lambda>c t. unreference t c) (cells col_ab) col_ab)"
  let ?ix = "Opts (silent_default (or_empty (Some loud_opts)))"
  have lo: "local_options ?ix None = loud_opts\<lparr>opt_merge := Some False\<rparr>"
    by (simp add: local_options_def merge_default_def silent_default_def or_empty_def loud_opts_def)
  have f: "cells ?s2 = []" "len ?s2 = 0" "cmap ?s2 = Map.empty" "events ?s2 = []"
    by (simp_all add: clean_def fold_unreference_frame col_ab_fields unreference_def)
  have gc: "get ?s2 (Some cell_c) = None"
    by (simp add: get_def map_get_def f object_members_def cell_c_def)
  have ra: "returned (add ?s2 (One cell_c) ?ix None)"
    by (simp add: add_returned_char entities_def gc)
  have a: "added_of ?s2 (One cell_c) = [cell_c]"
    by (simp add: added_of_def entities_def gc)
  have m: "add_merged ?s2 (One cell_c) ?ix None = []"
    by (simp add: add_merged_def add_partition_def entities_def add_entity_def gc)
  have i: "local_index ?s2 ?ix = 0"
    by (simp add: local_index_def resolve_index_def f)
  have n: "\<not> add_sorts ?s2 (One cell_c) ?ix None"
    by (simp add: add_sorts_explicit_index)
  have s: "\<not> truthy (opt_silent (loud_opts\<lparr>opt_merge := Some False\<rparr>))"
    "\<not> truthy (opt_silent (or_empty (Some loud_opts)))"
    by (simp_all add: loud_opts_def truthy_def or_empty_def)
  have e: "events (fst (add ?s2 (One cell_c) ?ix None))
        = [EvAdd cell_c 0 (loud_opts\<lparr>opt_merge := Some False\<rparr>),
           EvUpdate [cell_c] [] [] (loud_opts\<lparr>opt_merge := Some False\<rparr>)]"
    using s by (simp add: add_returned_state [OF ra] add_emitted_eq add_added_eq [OF ra] lo a m i n f)
  have c: "cells (fst (add ?s2 (One cell_c) ?ix None)) = [cell_c]"
    using add_cells_unsorted [OF ra n] by (simp add: a f splice_insert_def)
  have r: "returned (reset col_ab (One cell_c) (Some loud_opts))"
    by (rule reset_returned_examples)
  show ?thesis
  proof (cases col_ab "One cell_c" "Some loud_opts" rule: reset_cases)
    case (threw t e)
    then show ?thesis using r by (simp add: returned_def)
  next
    case (returned t)
    then show ?thesis using e c s r by (simp add: trigger_def col_ab_fields or_empty_def)
  qed
qed

text \<open>
  C3. \<open>add\<close> with \<open>merge\<close> and a cell whose id is present under another store: the member's
  store takes the incoming data, the member is listed in \<open>merged\<close> of the update event,
  and length and sequence stay. The call \<open>store.set\<close> receives the third parameter of
  \<open>add\<close>: the caller's options when a numeric index precedes them, but \<open>undefined\<close> when
  the options are passed as second argument. Evaluated on \<open>col_ab\<close> and \<open>cell_a2\<close>.
\<close>

theorem add_merge_options_not_forwarded:
  "get col_ab (Some cell_a2) = Some (Member cell_a)
   \<and> store_calls (fst (add col_ab (One cell_a2) (Opts merge_opts) None)) = [StoreSet 1 None]
   \<and> store_calls (fst (add col_ab (One cell_a2) (Num 0) (Some merge_opts)))
       = [StoreSet 1 (Some merge_opts)]
   \<and> data (heap (fst (add col_ab (One cell_a2) (Opts merge_opts) None)) 1) ''zIndex'' = Some 0
   \<and> data (heap (fst (add col_ab (One cell_a2) (Opts merge_opts) None)) 1) ''w'' = Some 7
   \<and> events (fst (add col_ab (One cell_a2) (Opts merge_opts) None))
       = [EvUpdate [] [cell_a] [] merge_opts]
   \<and> cells (fst (add col_ab (One cell_a2) (Opts merge_opts) None)) = [cell_a, cell_b]
   \<and> len (fst (add col_ab (One cell_a2) (Opts merge_opts) None)) = 2
   \<and> snd (add col_ab (One cell_a2) (Opts merge_opts) None) = Inr ()"
proof -
  have g: "get col_ab (Some cell_a2) = Some (Member cell_a)" by (rule get_examples)
  have lo: "local_options (Opts merge_opts) None = merge_opts"
    "local_options (Num 0) (Some merge_opts) = merge_opts"
    by (simp_all add: local_options_def merge_default_def merge_opts_def)
  have r: "store_ref cell_a2 \<noteq> store_ref cell_a" "store_ref cell_a = 1" "store_ref cell_a2 = 4"
    by (simp_all add: cell_a_def cell_a2_def)
  have sb: "\<not> sortable col_ab (Opts merge_opts) None" "\<not> sortable col_ab (Num 0) (Some merge_opts)"
    by (simp_all add: sortable_def)
  have t: "truthy (opt_merge merge_opts)" "\<not> truthy (opt_silent merge_opts)"
    by (simp_all add: merge_opts_def truthy_def)
  define h where "h = heap0(1 := store_set (heap0 1) (store_get (heap0 4)))"
  have p: "add_partition col_ab (One cell_a2) (Opts merge_opts) None
           = ((col_ab\<lparr>heap := h, store_calls := [StoreSet 1 None]\<rparr>, False, [], [cell_a]), None)"
    "add_partition col_ab (One cell_a2) (Num 0) (Some merge_opts)
           = ((col_ab\<lparr>heap := h, store_calls := [StoreSet 1 (Some merge_opts)]\<rparr>, False, [],
               [cell_a]), None)"
    using g r sb t
    by (simp_all add: add_partition_def entities_def add_entity_def lo Let_def col_ab_fields h_def)
  have ns: "\<not> add_sorts col_ab (One cell_a2) (Opts merge_opts) None"
    "\<not> add_sorts col_ab (One cell_a2) (Num 0) (Some merge_opts)"
    by (simp_all add: add_sorts_explicit_index)
  have st: "add col_ab (One cell_a2) (Opts merge_opts) None
            = (col_ab\<lparr>heap := h, store_calls := [StoreSet 1 None],
                      events := [EvUpdate [] [cell_a] [] merge_opts]\<rparr>, Inr ())"
    "store_calls (fst (add col_ab (One cell_a2) (Num 0) (Some merge_opts)))
     = [StoreSet 1 (Some merge_opts)]"
    using t ns
    by (simp_all add: add_def Let_def add_sorted_def add_spliced_def add_emitted_def p lo
          col_ab_fields)
  have d: "data (h 1) ''zIndex'' = Some 0" "data (h 1) ''w'' = Some 7"
    by (simp_all add: h_def store_set_def store_get_def heap0_def)
  show ?thesis using g d by (simp add: st col_ab_fields)
qed

text \<open>
  C4. \<open>add\<close> of entities whose ids are all present, without \<open>merge\<close>, returns and leaves the
  collection as it was: nothing is inserted, no event is triggered, length and positions
  stay. In any batch, a cell whose id is present is not among the inserted ones and gets
  no add event, and the sequence grows by exactly the inserted cells.
\<close>

theorem add_present_without_merge_is_noop:
  "((\<forall>c\<in>set (entities cs). get s (Some c) \<noteq> None)
      \<and> \<not> truthy (opt_merge (local_options index options))
     \<longrightarrow> add s cs index options = (s, Inr ()))
   \<and> (get s (Some c) \<noteq> None
     \<longrightarrow> c \<notin> set (added_of s cs)
         \<and> (\<forall>i lo. EvAdd c i lo \<notin> set (add_emitted s cs index options)))
   \<and> mset (cells (fst (add s cs index options)))
       = mset (cells s)
         + (if returned (add s cs index options) then mset (added_of s cs) else {#})"
proof -
  have a: "add s cs index options = (s, Inr ())"
    if "(\<forall>c\<in>set (entities cs). get s (Some c) \<noteq> None)
        \<and> \<not> truthy (opt_merge (local_options index options))"
    using that by (intro add_present_noop) simp_all
  have b: "c \<notin> set (added_of s cs)" if "get s (Some c) \<noteq> None"
    using that added_of_absent [of c s cs] by auto
  have c: "EvAdd c i lo \<notin> set (add_emitted s cs index options)"
    if "get s (Some c) \<noteq> None" for i lo
    using that add_emitted_adds [of c i lo s cs index options] by auto
  show ?thesis using a b c mset_add_cells [of s cs index options] by auto
qed

theorem add_present_without_merge_is_noop_witness:
  "get col_ab (Some cell_a2) = Some (Member cell_a)
   \<and> \<not> truthy (opt_merge (local_options NoIndex None))
   \<and> add col_ab (One cell_a2) NoIndex None = (col_ab, Inr ())
   \<and> add col_ab (Many [cell_a2, cell_b]) (Num 0) None = (col_ab, Inr ())
   \<and> cell_a2 \<notin> set (added_of col_ab (Many [cell_c, cell_a2]))"
proof -
  have m: "\<not> truthy (opt_merge (local_options NoIndex None))"
    "\<not> truthy (opt_merge (local_options (Num 0) None))"
    by (simp_all add: local_options_def merge_default_def empty_options_def truthy_def)
  show ?thesis
    using add_present_without_merge_is_noop [of "One cell_a2" col_ab NoIndex None cell_a2]
      add_present_without_merge_is_noop [of "Many [cell_a2, cell_b]" col_ab "Num 0" None cell_a2]
      add_present_without_merge_is_noop [of "Many [cell_c, cell_a2]" col_ab "Num 0" None cell_a2]
      m
    by (simp add: entities_def get_examples)
qed

lemma col_e_add_examples:
  "returned (add col_e (Many [cell_a, cell_b]) NoIndex None)"
  "add_sorts col_e (Many [cell_a, cell_b]) NoIndex None"
  "added_of col_e (Many [cell_a, cell_b]) = [cell_a, cell_b]"
proof -
  have ga: "get col_e (Some cell_a) = None"
    by (simp add: get_def map_get_def col_e_fields object_members_def cell_a_def)
  have gb: "get col_e (Some cell_b) = None"
    by (simp add: get_def map_get_def col_e_fields object_members_def cell_b_def)
  have gr: "get (reference col_e cell_a) (Some cell_b) = None"
    by (simp add: get_def map_get_def reference_def col_e_fields object_members_def
          cell_a_def cell_b_def)
  have p: "add_partition col_e (Many [cell_a, cell_b]) NoIndex None
           = ((reference (reference col_e cell_a) cell_b, False, [cell_a, cell_b], []), None)"
    by (simp add: add_partition_def entities_def add_entity_def ga gr)
  show "returned (add col_e (Many [cell_a, cell_b]) NoIndex None)"
    by (simp add: add_returned_iff p)
  show "add_sorts col_e (Many [cell_a, cell_b]) NoIndex None"
    by (simp add: add_sorts_def p sortable_def comparator_truthy_def col_e_fields
          local_options_def merge_default_def empty_options_def)
  have "cid cell_a \<noteq> cid cell_b" by (simp add: cell_a_def cell_b_def)
  then show "added_of col_e (Many [cell_a, cell_b]) = [cell_a, cell_b]"
    by (simp add: added_of_def entities_def ga gb)
qed

text \<open>
  C5 (as amended). In an \<open>add\<close> that returns, with an explicit numeric index, the new
  entities are inserted in one block at a position within \<open>[0, length]\<close>. For an index \<open>i\<close>
  not below \<open>-(length + 1)\<close> the position is \<open>length\<close> for \<open>i > length\<close>, \<open>i\<close> for
  \<open>0 \<le> i \<le> length\<close>, and \<open>i + length + 1\<close> for negative \<open>i\<close>: index \<open>-1\<close> appends after the last
  element. When the index is omitted, the insertion appends the new entities at position
  \<open>length\<close>: right after the splice the sequence is the old one followed by the new
  entities, and the \<open>add\<close> leaves it so, or sorted by the comparator if the \<open>add\<close> sorts. An
  \<open>add\<close> that throws inserts nothing.
\<close>

theorem add_insertion_position:
  assumes "len s = int (length (cells s))"
  shows "(\<exists>p\<le>length (cells s).
            cells (fst (add s cs (Num i) options))
            = take p (cells s)
              @ (if returned (add s cs (Num i) options) then added_of s cs else [])
              @ drop p (cells s)
            \<and> (- (len s + 1) \<le> i \<longrightarrow>
                 int p = (if i > len s then len s else if i < 0 then i + (len s + 1) else i)))
       \<and> (i = -1 \<longrightarrow>
            cells (fst (add s cs (Num i) options))
            = cells s @ (if returned (add s cs (Num i) options) then added_of s cs else []))
       \<and> ((\<forall>j. index \<noteq> Num j) \<longrightarrow>
            (returned (add s cs index options) \<longrightarrow>
               cells (add_spliced s cs index options) = cells s @ added_of s cs)
            \<and> cells (fst (add s cs index options))
               = (if \<not> returned (add s cs index options) then cells s
                  else if add_sorts s cs index options
                  then cells (sort_cells (add_spliced s cs index options)
                                (Some (empty_options\<lparr>opt_silent := Some True\<rparr>)))
                  else cells s @ added_of s cs))"
proof -
  let ?p = "splice_start (cells s) (resolve_index (len s) i)"
  let ?ins = "if returned (add s cs (Num i) options) then added_of s cs else []"
  have p: "int ?p = (if i > len s then len s else if i < 0 then i + (len s + 1) else i)"
    if "- (len s + 1) \<le> i"
    using that assms by (auto simp: splice_start_def resolve_index_def Let_def)
  have ex: "cells (fst (add s cs (Num i) options)) = take ?p (cells s) @ ?ins @ drop ?p (cells s)"
    by (cases "returned (add s cs (Num i) options)")
       (simp_all add: add_explicit_index_cells add_thrown_state)
  have a: "\<exists>p\<le>length (cells s).
            cells (fst (add s cs (Num i) options)) = take p (cells s) @ ?ins @ drop p (cells s)
            \<and> (- (len s + 1) \<le> i \<longrightarrow>
                 int p = (if i > len s then len s else if i < 0 then i + (len s + 1) else i))"
    using p ex splice_start_le [of "cells s"] by blast
  have b: "cells (fst (add s cs (Num i) options)) = cells s @ ?ins" if "i = -1"
  proof -
    have "?p = length (cells s)" using p that assms by simp
    then show ?thesis using ex by simp
  qed
  have c: "(returned (add s cs index options) \<longrightarrow>
               cells (add_spliced s cs index options) = cells s @ added_of s cs)
            \<and> cells (fst (add s cs index options))
               = (if \<not> returned (add s cs index options) then cells s
                  else if add_sorts s cs index options
                  then cells (sort_cells (add_spliced s cs index options)
                                (Some (empty_options\<lparr>opt_silent := Some True\<rparr>)))
                  else cells s @ added_of s cs)"
    if "\<forall>j. index \<noteq> Num j"
  proof -
    have "local_index s index = len s"
      using that assms by (cases index) (simp_all add: local_index_def resolve_index_def)
    then have st: "splice_start (cells s) (local_index s index) = length (cells s)"
      using assms by (simp add: splice_start_def)
    have sp: "cells (add_spliced s cs index options) = cells s @ added_of s cs"
      if "returned (add s cs index options)"
      using that by (simp add: add_spliced_fields add_added_eq splice_insert_def st)
    show ?thesis
    proof (cases "returned (add s cs index options)")
      case True
      then show ?thesis using sp by (simp add: add_returned_state add_sorted_def)
    next
      case False
      then show ?thesis by (simp add: add_thrown_state)
    qed
  qed
  show ?thesis using a b c by blast
qed

theorem add_insertion_position_witness:
  "len col_ab = int (length (cells col_ab)) \<and> len col_e = int (length (cells col_e))
   \<and> cells (fst (add col_ab (One cell_c) (Num (-2)) None)) = [cell_a, cell_c, cell_b]
   \<and> cells (fst (add col_ab (One cell_c) (Num (-1)) None)) = [cell_a, cell_b, cell_c]
   \<and> cells (fst (add col_ab (One cell_c) (Num 7) None)) = [cell_a, cell_b, cell_c]
   \<and> cells (fst (add col_ab (One cell_c) NoIndex None)) = [cell_a, cell_b, cell_c]
   \<and> add_sorts col_e (Many [cell_a, cell_b]) NoIndex None
   \<and> cells (add_spliced col_e (Many [cell_a, cell_b]) NoIndex None) = [cell_a, cell_b]
   \<and> cells (fst (add col_e (Many [cell_a, cell_b]) NoIndex None))
       = cells (sort_cells (add_spliced col_e (Many [cell_a, cell_b]) NoIndex None)
                  (Some (empty_options\<lparr>opt_silent := Some True\<rparr>)))"
proof -
  have l: "len col_ab = int (length (cells col_ab))" by (simp add: col_ab_fields)
  have le: "len col_e = int (length (cells col_e))" by (simp add: col_e_fields)
  have "\<not> sortable col_ab NoIndex None"
    by (simp add: sortable_def comparator_truthy_def col_ab_fields)
  then have n: "\<not> add_sorts col_ab (One cell_c) NoIndex None"
    using add_sorts_sortable by blast
  have "cells (fst (add col_ab (One cell_c) (Num (-2)) None)) = [cell_a, cell_c, cell_b]"
    by (simp add: add_explicit_index_cells returned_examples added_of_examples col_ab_fields
          splice_start_def resolve_index_def)
  moreover have "cells (fst (add col_ab (One cell_c) (Num 7) None)) = [cell_a, cell_b, cell_c]"
    by (simp add: add_explicit_index_cells returned_examples added_of_examples col_ab_fields
          splice_start_def resolve_index_def)
  ultimately show ?thesis
    using add_insertion_position [OF l, of "One cell_c" "-1" None NoIndex]
      add_insertion_position [OF le, of "Many [cell_a, cell_b]" 0 None NoIndex] l le n
    by (simp add: added_of_examples col_ab_fields returned_examples col_e_add_examples
          col_e_fields)
qed

text \<open>Index \<open>-1\<close> puts the new cell after the last element, not before it.\<close>

theorem add_minus_one_appends_counterexample:
  "cells (fst (add col_ab (One cell_c) (Num (-1)) None)) = [cell_a, cell_b, cell_c]
   \<and> cells (fst (add col_ab (One cell_c) (Num (-1)) None)) \<noteq> [cell_a, cell_c, cell_b]"
proof -
  have "[cell_a, cell_b, cell_c] \<noteq> [cell_a, cell_c, cell_b]"
    by (simp add: cell_b_def cell_c_def)
  then show ?thesis
    by (simp add: add_explicit_index_cells returned_examples added_of_examples col_ab_fields
          splice_start_def resolve_index_def)
qed

text \<open>
  C6 (as amended). A non-silent \<open>add\<close> that returns triggers, in this order: for the \<open>j\<close>-th
  newly inserted entity an add event with index \<open>localIndex + j\<close>, where \<open>localIndex\<close> is the
  resolved insertion index; a sort event if \<open>add\<close> sorted, which needs a sortable
  collection; and, if anything was added or merged, one update event whose \<open>added\<close> lists
  the inserted entities in input order and whose \<open>removed\<close> is empty. The index of an add
  event is the position of its entity in the sequence when the resolved index is not
  negative and no sort followed. An \<open>add\<close> that throws triggers nothing.
\<close>

theorem add_event_sequence:
  assumes "\<not> truthy (opt_silent (local_options index options))"
  shows "events (fst (add s cs index options))
         = events s
           @ (if returned (add s cs index options)
              then add_events (local_options index options) (local_index s index) (added_of s cs)
                   @ (if add_sorts s cs index options then [EvSort] else [])
                   @ (if added_of s cs \<noteq> [] \<or> add_merged s cs index options \<noteq> []
                      then [EvUpdate (added_of s cs) (add_merged s cs index options) []
                              (local_options index options)]
                      else [])
              else [])
       \<and> length (add_events (local_options index options) (local_index s index) (added_of s cs))
           = length (added_of s cs)
       \<and> (\<forall>j<length (added_of s cs).
             add_events (local_options index options) (local_index s index) (added_of s cs) ! j
             = EvAdd (added_of s cs ! j) (local_index s index + int j) (local_options index options))
       \<and> (returned (add s cs index options) \<and> len s = int (length (cells s))
            \<and> 0 \<le> local_index s index \<and> \<not> add_sorts s cs index options
           \<longrightarrow> (\<forall>j<length (added_of s cs).
                  nth_opt (cells (fst (add s cs index options))) (local_index s index + int j)
                  = Some (added_of s cs ! j)))
       \<and> (add_sorts s cs index options \<longrightarrow> sortable s index options)"
proof -
  have ev: "events (fst (add s cs index options))
         = events s
           @ (if returned (add s cs index options)
              then add_events (local_options index options) (local_index s index) (added_of s cs)
                   @ (if add_sorts s cs index options then [EvSort] else [])
                   @ (if added_of s cs \<noteq> [] \<or> add_merged s cs index options \<noteq> []
                      then [EvUpdate (added_of s cs) (add_merged s cs index options) []
                              (local_options index options)]
                      else [])
              else [])"
  proof (cases "returned (add s cs index options)")
    case True
    then show ?thesis using assms
      by (simp add: add_returned_state add_emitted_eq add_added_eq)
  next
    case False
    then show ?thesis by (simp add: add_thrown_state)
  qed
  have pos: "nth_opt (cells (fst (add s cs index options))) (local_index s index + int j)
             = Some (added_of s cs ! j)"
    if r: "returned (add s cs index options)"
      and l: "len s = int (length (cells s))" and z: "0 \<le> local_index s index"
      and n: "\<not> add_sorts s cs index options" and j: "j < length (added_of s cs)" for j
  proof -
    let ?p = "nat (local_index s index)"
    have le: "?p \<le> length (cells s)" using local_index_le [of s index] l z by simp
    then have st: "splice_start (cells s) (local_index s index) = ?p"
      using z by (simp add: splice_start_in_range)
    have c: "cells (fst (add s cs index options))
             = take ?p (cells s) @ added_of s cs @ drop ?p (cells s)"
      using add_cells_unsorted [OF r n] by (simp add: splice_insert_def st)
    have "nat (local_index s index + int j) = ?p + j" using z by simp
    moreover have "(take ?p (cells s) @ added_of s cs @ drop ?p (cells s)) ! (?p + j)
                   = added_of s cs ! j"
      using le j by (simp add: nth_append)
    moreover have "local_index s index + int j
                   < int (length (take ?p (cells s) @ added_of s cs @ drop ?p (cells s)))"
      using le j z by simp
    ultimately show ?thesis using z by (simp add: c nth_opt_def)
  qed
  have srt: "sortable s index options" if "add_sorts s cs index options"
    using that by (rule add_sorts_sortable)
  show ?thesis
    using ev pos srt
    by (simp add: add_events_length add_events_nth)
qed

theorem add_event_sequence_witness:
  "\<not> truthy (opt_silent (local_options (Num 0) None))
   \<and> returned (add col_ab (Many [cell_c, cell_a2]) (Num 0) None)
   \<and> events (fst (add col_ab (Many [cell_c, cell_a2]) (Num 0) None))
       = [EvAdd cell_c 0 (local_options (Num 0) None),
          EvUpdate [cell_c] [] [] (local_options (Num 0) None)]
   \<and> nth_opt (cells (fst (add col_ab (Many [cell_c, cell_a2]) (Num 0) None))) 0 = Some cell_c"
proof -
  have s: "\<not> truthy (opt_silent (local_options (Num 0) None))"
    by (simp add: local_options_def merge_default_def empty_options_def truthy_def)
  have m: "add_merged col_ab (Many [cell_c, cell_a2]) (Num 0) None = []"
    by (simp add: add_merged_def add_partition_def entities_def add_entity_def get_examples
          same_cmap_get [of "reference col_ab cell_c" col_ab] get_def map_get_def reference_def
          col_ab_fields local_options_def merge_default_def empty_options_def
          truthy_def cell_c_def cell_a2_def)
  have i: "local_index col_ab (Num 0) = 0"
    by (simp add: local_index_def resolve_index_def col_ab_fields)
  have n: "\<not> add_sorts col_ab (Many [cell_c, cell_a2]) (Num 0) None"
    by (simp add: add_sorts_explicit_index)
  show ?thesis
    using add_event_sequence [OF s, of col_ab "Many [cell_c, cell_a2]"] s m i n
    by (simp add: added_of_examples col_ab_fields returned_examples)
qed

text \<open>After an \<open>add\<close> that sorts, the index of an add event need not be the position of its
  entity: \<open>cell_a\<close> is announced at index 0 and stands at position 1.\<close>

theorem add_event_index_after_sort_counterexample:
  "returned (add col_e (Many [cell_a, cell_b]) NoIndex None)
   \<and> events (fst (add col_e (Many [cell_a, cell_b]) NoIndex None))
     = [EvAdd cell_a 0 (local_options NoIndex None), EvAdd cell_b 1 (local_options NoIndex None),
        EvSort, EvUpdate [cell_a, cell_b] [] [] (local_options NoIndex None)]
   \<and> cells (fst (add col_e (Many [cell_a, cell_b]) NoIndex None)) = [cell_b, cell_a]
   \<and> nth_opt (cells (fst (add col_e (Many [cell_a, cell_b]) NoIndex None))) 0 \<noteq> Some cell_a"
proof -
  have ga: "get col_e (Some cell_a) = None"
    by (simp add: get_def map_get_def col_e_fields object_members_def cell_a_def)
  have gb: "get (reference col_e cell_a) (Some cell_b) = None"
    by (simp add: get_def map_get_def reference_def col_e_fields object_members_def
          cell_a_def cell_b_def)
  have p: "add_partition col_e (Many [cell_a, cell_b]) NoIndex None
           = ((reference (reference col_e cell_a) cell_b, False, [cell_a, cell_b], []), None)"
    by (simp add: add_partition_def entities_def add_entity_def ga gb)
  have r: "returned (add col_e (Many [cell_a, cell_b]) NoIndex None)"
    by (simp add: add_returned_iff p)
  have so: "add_sorts col_e (Many [cell_a, cell_b]) NoIndex None"
    by (simp add: add_sorts_def p sortable_def comparator_truthy_def col_e_fields
          local_options_def merge_default_def empty_options_def)
  have i: "local_index col_e NoIndex = 0"
    by (simp add: local_index_def resolve_index_def col_e_fields)
  have sp: "cells (add_spliced col_e (Many [cell_a, cell_b]) NoIndex None) = [cell_a, cell_b]"
    "comparator (add_spliced col_e (Many [cell_a, cell_b]) NoIndex None) = Some (ByKey ''zIndex'')"
    "heap (add_spliced col_e (Many [cell_a, cell_b]) NoIndex None) = heap0"
    by (simp_all add: add_spliced_def p i reference_def col_e_fields splice_insert_def
          splice_start_def)
  have "cells (fst (add col_e (Many [cell_a, cell_b]) NoIndex None))
        = sortBy heap0 [''zIndex''] [cell_a, cell_b]"
    by (simp add: add_returned_state [OF r] add_sorted_def so sort_cells_def sp trigger_def
          Let_def or_empty_def truthy_def)
  also have "\<dots> = [cell_b, cell_a]"
    by (simp add: sortBy_def sort_by_def sort_keys_def resolve_def heap0_def cell_a_def cell_b_def)
  finally have c: "cells (fst (add col_e (Many [cell_a, cell_b]) NoIndex None)) = [cell_b, cell_a]" .
  have e: "events (fst (add col_e (Many [cell_a, cell_b]) NoIndex None))
     = [EvAdd cell_a 0 (local_options NoIndex None), EvAdd cell_b 1 (local_options NoIndex None),
        EvSort, EvUpdate [cell_a, cell_b] [] [] (local_options NoIndex None)]"
    by (simp add: add_returned_state [OF r] add_emitted_def p so i col_e_fields)
       (simp add: local_options_def merge_default_def empty_options_def truthy_def)
  have "cell_b \<noteq> cell_a" by (simp add: cell_a_def cell_b_def)
  then show ?thesis using c e r by (simp add: nth_opt_def)
qed

text \<open>
  C7. \<open>at\<close> with a negative index wraps relative to the length: \<open>at(-1)\<close> is \<open>last()\<close>, the
  last cell of a non-empty sequence, and \<open>at(-length)\<close> is \<open>first()\<close>, its first cell. An
  index that is out of range after wrapping gives \<open>null\<close>; \<open>at\<close> has no failing path. The
  cached length is the length of the sequence, as every operation that returns leaves it.
\<close>

theorem at_wraps_negative_index:
  assumes "len s = int (length (cells s))"
  shows "at s (-1) = last_cell s \<and> at s (- len s) = first s
       \<and> (cells s \<noteq> [] \<longrightarrow> at s (-1) = Some (last (cells s))
                            \<and> at s (- len s) = Some (hd (cells s)))
       \<and> (\<forall>i. at s i = (if - len s \<le> i \<and> i < len s
                         then Some (cells s ! nat (if i < 0 then i + len s else i))
                         else None))"
proof -
  have a: "at s (-1) = last_cell s" by (simp add: last_cell_def)
  have b: "at s (- len s) = first s" using assms by (simp add: first_def at_def)
  have c: "at s (-1) = Some (last (cells s))" if "cells s \<noteq> []"
    using that assms by (cases "cells s" rule: rev_cases) (auto simp: at_def nth_opt_def nth_append)
  have d: "at s (- len s) = Some (hd (cells s))" if "cells s \<noteq> []"
    using that assms by (cases "cells s") (auto simp: at_def nth_opt_def)
  have e: "at s i = (if - len s \<le> i \<and> i < len s
                     then Some (cells s ! nat (if i < 0 then i + len s else i)) else None)" for i
    using assms by (auto simp: at_def nth_opt_def)
  show ?thesis using a b c d e by blast
qed

theorem at_wraps_negative_index_witness:
  "len col_ab = int (length (cells col_ab))
   \<and> at col_ab (-1) = Some cell_b \<and> last_cell col_ab = Some cell_b
   \<and> at col_ab (-2) = Some cell_a \<and> first col_ab = Some cell_a
   \<and> at col_ab (-3) = None \<and> at col_ab 2 = None"
  using at_wraps_negative_index [of col_ab]
  by (simp add: col_ab_fields at_def nth_opt_def first_def last_cell_def)

lemma remove_member_example:
  "cells (fst (remove col_ab (One (Some cell_a)) None)) = [cell_b]
   \<and> len (fst (remove col_ab (One (Some cell_a)) None)) = 1
   \<and> cmap (fst (remove col_ab (One (Some cell_a)) None)) ''a'' = None
   \<and> snd (remove col_ab (One (Some cell_a)) None) = Inr (ROne (Some cell_a))
   \<and> snd (remove col_ab (Many [Some cell_c, Some cell_a]) None) = Inr (RMany [cell_a])"
proof -
  define s1 where
    "s1 = trigger (unreference (col_ab\<lparr>cells := [cell_b], len := 1,
                                         cmap := (cmap col_ab)(''a'' := None)\<rparr>) cell_a)
                  (EvRemove cell_a 0 empty_options)"
  have i: "index_of [cell_a, cell_b] cell_a = 0" by simp
  have a: "cid cell_a = ''a''" by (simp add: cell_a_def)
  have t: "\<not> truthy (opt_silent empty_options)" by (simp add: empty_options_def truthy_def)
  have c: "remove_cell empty_options (Some cell_c) (col_ab, []) = ((col_ab, []), None)"
    by (simp add: remove_cell_def get_examples)
  have r: "remove_cell empty_options (Some cell_a) (col_ab, []) = ((s1, [cell_a]), None)"
    using t
    by (simp add: remove_cell_def get_examples Let_def col_ab_fields i a splice_delete_def
          splice_start_def s1_def)
  have f: "cells s1 = [cell_b]" "len s1 = 1" "cmap s1 ''a'' = None"
    by (simp_all add: s1_def trigger_def unreference_def a)
  show ?thesis
    using t by (simp add: remove_def removeCells_def entities_def or_empty_def c r f trigger_def)
qed

text \<open>
  C8. The claim: \<open>remove\<close> skips entries that are not in the collection, without error;
  the single form returns the removed entity or \<open>undefined\<close>, the list form the entities
  removed. Evaluated on \<open>col_ab\<close>: an entry of an ordinary id that is not in the collection
  is skipped and the call returns \<open>undefined\<close>, and a member is taken out of sequence and
  index and returned; but for the entry \<open>cell_k\<close>, which is not in the collection either and
  whose id is \<open>constructor\<close>, \<open>get\<close> yields the inherited member, and \<open>remove\<close> takes the
  last cell out of the sequence and throws a TypeError, in the single and in the list form,
  before any event is triggered.
\<close>

theorem remove_inherited_id_not_skipped:
  "cell_k \<notin> set (cells col_ab) \<and> cmap col_ab (cid cell_k) = None
   \<and> get col_ab (Some cell_k) = Some (Inherited ''constructor'')
   \<and> snd (remove col_ab (One (Some cell_k)) None) = Inl TypeError
   \<and> snd (remove col_ab (Many [Some cell_k]) None) = Inl TypeError
   \<and> cells (fst (remove col_ab (One (Some cell_k)) None)) = [cell_a]
   \<and> len (fst (remove col_ab (One (Some cell_k)) None)) = 1
   \<and> cmap (fst (remove col_ab (One (Some cell_k)) None)) ''b'' = Some cell_b
   \<and> events (fst (remove col_ab (One (Some cell_k)) None)) = []
   \<and> get col_ab (Some cell_c) = None
   \<and> remove col_ab (One (Some cell_c)) None = (col_ab, Inr (ROne None))
   \<and> snd (remove col_ab (One (Some cell_a)) None) = Inr (ROne (Some cell_a))
   \<and> cells (fst (remove col_ab (One (Some cell_a)) None)) = [cell_b]
   \<and> len (fst (remove col_ab (One (Some cell_a)) None)) = 1
   \<and> cmap (fst (remove col_ab (One (Some cell_a)) None)) ''a'' = None
   \<and> snd (remove col_ab (Many [Some cell_c, Some cell_a]) None) = Inr (RMany [cell_a])"
proof -
  have k: "cell_k \<notin> set (cells col_ab)" "cmap col_ab (cid cell_k) = None"
    by (simp_all add: col_ab_fields cell_a_def cell_b_def cell_k_def)
  have m: "snd (remove col_ab (Many [Some cell_k]) None) = Inl TypeError"
    by (simp add: remove_def removeCells_def remove_cell_def entities_def get_examples Let_def)
  have c: "remove col_ab (One (Some cell_c)) None = (col_ab, Inr (ROne None))"
    by (simp add: remove_def removeCells_def remove_cell_def entities_def get_examples Let_def)
  show ?thesis
    using k m c remove_member_example
    by (simp add: remove_inherited_example get_examples col_ab_fields)
qed

text \<open>
  C9. \<open>sort\<close> without a comparator changes nothing and triggers nothing. With a single-key
  or a multi-key comparator the sequence becomes a rearrangement of itself that ascends in
  the resolved keys (for several keys in their lexicographic order, so that later keys
  break the ties of earlier ones), and the cells of any one key value keep the relative
  order they had before; a sort event follows unless the call is silent.
\<close>

theorem sort_is_stable_and_ascending:
  "(comparator s = None \<longrightarrow> sort_cells s options = s)
   \<and> (comparator s = Some (ByKey k) \<longrightarrow>
        sorted_wrt (\<lambda>a b. resolve (heap s) a k \<le> resolve (heap s) b k) (cells (sort_cells s options))
        \<and> mset (cells (sort_cells s options)) = mset (cells s)
        \<and> (\<forall>v. filter (\<lambda>c. resolve (heap s) c k = v) (cells (sort_cells s options))
               = filter (\<lambda>c. resolve (heap s) c k = v) (cells s)))
   \<and> (comparator s = Some (ByKeys ks) \<longrightarrow>
        sorted_wrt (\<lambda>a b. sort_keys (heap s) ks a \<le> sort_keys (heap s) ks b)
          (cells (sort_cells s options))
        \<and> mset (cells (sort_cells s options)) = mset (cells s)
        \<and> (\<forall>v. filter (\<lambda>c. sort_keys (heap s) ks c = v) (cells (sort_cells s options))
               = filter (\<lambda>c. sort_keys (heap s) ks c = v) (cells s)))
   \<and> (comparator s \<noteq> None \<longrightarrow>
        events (sort_cells s options)
        = events s @ (if truthy (opt_silent (or_empty options)) then [] else [EvSort]))"
proof -
  have none: "sort_cells s options = s" if "comparator s = None"
    using that by (simp add: sort_cells_def)
  have one: "cells (sort_cells s options)
             = sort_by (\<lambda>a b. resolve (heap s) a k \<le> resolve (heap s) b k) (cells s)"
    if "comparator s = Some (ByKey k)"
  proof -
    have "(\<lambda>a b. sort_keys (heap s) [k] a \<le> sort_keys (heap s) [k] b)
          = (\<lambda>a b. resolve (heap s) a k \<le> resolve (heap s) b k)"
      by (intro ext) (auto simp: sort_keys_def)
    then show ?thesis
      using that by (simp add: sort_cells_def sortBy_def Let_def trigger_def)
  qed
  have many: "cells (sort_cells s options)
              = sort_by (\<lambda>a b. sort_keys (heap s) ks a \<le> sort_keys (heap s) ks b) (cells s)"
    if "comparator s = Some (ByKeys ks)"
    using that by (simp add: sort_cells_def sortBy_def Let_def trigger_def)
  have ev: "events (sort_cells s options)
        = events s @ (if truthy (opt_silent (or_empty options)) then [] else [EvSort])"
    if "comparator s \<noteq> None"
    using that by (auto simp: sort_cells_def Let_def trigger_def)
  show ?thesis
    using none ev
    by (simp add: one many sorted_sort_by_key mset_sort_by sort_by_key_stable)
qed

theorem sort_is_stable_and_ascending_witness:
  "comparator col_z = Some (ByKey ''zIndex'')
   \<and> cells (sort_cells col_z None) = [cell_b, cell_c, cell_a]
   \<and> filter (\<lambda>c. resolve (heap col_z) c ''zIndex'' = (False, 1)) (cells (sort_cells col_z None))
       = [cell_b, cell_c]
   \<and> filter (\<lambda>c. resolve (heap col_z) c ''zIndex'' = (False, 1)) (cells col_z) = [cell_b, cell_c]
   \<and> events (sort_cells col_z None) = [EvSort]
   \<and> sort_cells col_ab None = col_ab"
proof -
  have "cells (sort_cells col_z None) = [cell_b, cell_c, cell_a]"
    by (simp add: sort_cells_def col_z_fields sortBy_def sort_by_def sort_keys_def resolve_def
          heap0_def cell_a_def cell_b_def cell_c_def Let_def trigger_def)
  moreover have "filter (\<lambda>c. resolve (heap col_z) c ''zIndex'' = (False, 1)) (cells col_z)
                 = [cell_b, cell_c]"
    by (simp add: col_z_fields resolve_def heap0_def cell_a_def cell_b_def cell_c_def)
  ultimately show ?thesis
    using sort_is_stable_and_ascending [of col_z None "''zIndex''" "[]"]
      sort_is_stable_and_ascending [of col_ab None "''zIndex''" "[]"]
    by (simp add: col_z_fields col_ab_fields or_empty_def empty_options_def truthy_def)
qed

text \<open>
  C10. On an empty collection \<open>pop()\<close> and \<open>shift()\<close> do not fail: the lookup by \<open>at\<close> gives
  \<open>null\<close>, \<open>remove\<close> skips it, the collection is unchanged, and the call returns
  \<open>undefined\<close>.
\<close>

theorem pop_shift_on_empty:
  assumes "cells s = []" and "len s = 0"
  shows "at s (len s - 1) = None \<and> at s 0 = None
       \<and> pop s options = (s, Inr (ROne None)) \<and> shift s options = (s, Inr (ROne None))"
  using assms
  by (simp add: pop_def shift_def at_def nth_opt_def remove_def removeCells_def remove_cell_def
        get_def entities_def truthy_def)

theorem pop_shift_on_empty_witness:
  "cells env0 = [] \<and> len env0 = 0
   \<and> pop env0 None = (env0, Inr (ROne None)) \<and> shift env0 None = (env0, Inr (ROne None))"
  using pop_shift_on_empty [of env0 None] by (simp add: env0_def)

end
